theory Spec2Isabelle
  imports Main "HOL-Library.Sublist"
begin

section \<open>The LRU cache (cache/cache.go)\<close>

text \<open>
  Strings and byte slices are lists of bytes. A point in time is a number of nanoseconds
  on the wall clock, a \<^verbatim>\<open>time.Duration\<close> a number of nanoseconds; the clock is an
  argument of every operation that reads \<^verbatim>\<open>time.Now()\<close>. The zero \<^verbatim>\<open>time.Time\<close>
  (for which \<^verbatim>\<open>IsZero()\<close> holds) is \<open>None\<close>.
\<close>

type_synonym bytes = string
type_synonym Time = int
type_synonym Duration = int

record CacheItem =
  Key :: string
  Value :: bytes
  Size :: int
  CreatedAt :: Time
  ExpiresAt :: "Time option"

text \<open>
  \<^verbatim>\<open>container/list\<close> elements are heap objects, and the cache keeps pointers to them
  in its map. An element is modelled by its address (a natural number); \<open>elems\<close> is the
  heap, giving the \<^verbatim>\<open>Value\<close> of the element at an address; \<open>nextElem\<close> is the next free
  address. The list itself is the sequence of its elements' addresses, front first.
  Addresses that were never allocated are never read; the heap holds \<open>nil_item\<close> there.
  The mutex is not part of the state: every operation below is run as a whole.
\<close>

type_synonym Element = nat

record LRUCache =
  capacity :: int
  evictions :: int
  hits :: int
  misses :: int
  totalSize :: int
  items :: "string \<rightharpoonup> Element"
  evictionList :: "Element list"
  elems :: "Element \<Rightarrow> CacheItem"
  nextElem :: Element

record CacheStats =
  Stats_Size :: int
  Stats_Capacity :: int
  Hits :: int
  Misses :: int
  Evictions :: int
  AvgSize :: int

definition nil_item :: CacheItem where
  "nil_item = \<lparr>Key = [], Value = [], Size = 0, CreatedAt = 0, ExpiresAt = None\<rparr>"

definition NewLRUCache :: "int \<Rightarrow> LRUCache" where
  "NewLRUCache cap =
     \<lparr>capacity = cap, evictions = 0, hits = 0, misses = 0, totalSize = 0,
      items = Map.empty, evictionList = [], elems = (\<lambda>_. nil_item), nextElem = 0\<rparr>"

subsection \<open>The operations of container/list the cache uses\<close>

text \<open>\<^verbatim>\<open>l.PushFront(v)\<close> allocates a new element holding \<open>v\<close> and links it at the front.\<close>

definition PushFront :: "LRUCache \<Rightarrow> CacheItem \<Rightarrow> LRUCache \<times> Element" where
  "PushFront c v =
     (let e = nextElem c
      in (c\<lparr>elems := (elems c)(e := v), evictionList := e # evictionList c,
             nextElem := Suc e\<rparr>, e))"

text \<open>
  \<^verbatim>\<open>l.MoveToFront(e)\<close> and \<^verbatim>\<open>l.Remove(e)\<close> do nothing when \<open>e\<close> is not an element of
  \<open>l\<close> (the library checks \<^verbatim>\<open>e.list == l\<close>).
\<close>

definition MoveToFront :: "Element list \<Rightarrow> Element \<Rightarrow> Element list" where
  "MoveToFront l e = (if e \<in> set l then e # remove1 e l else l)"

definition list_Remove :: "Element list \<Rightarrow> Element \<Rightarrow> Element list" where
  "list_Remove l e = (if e \<in> set l then remove1 e l else l)"

definition Back :: "Element list \<Rightarrow> Element option" where
  "Back l = (if l = [] then None else Some (last l))"

subsection \<open>The cache's methods\<close>

definition evictElement :: "LRUCache \<Rightarrow> Element \<Rightarrow> bool \<times> LRUCache" where
  "evictElement c element =
     (let item = elems c element
      in (True, c\<lparr>evictionList := list_Remove (evictionList c) element,
                   items := (items c)(Key item := None),
                   totalSize := totalSize c - Size item,
                   evictions := evictions c + 1\<rparr>))"

definition evictOldest :: "LRUCache \<Rightarrow> bool \<times> LRUCache" where
  "evictOldest c =
     (case Back (evictionList c) of
        Some element \<Rightarrow> evictElement c element
      | None \<Rightarrow> (False, c))"

text \<open>
  The loop \<^verbatim>\<open>for c.evictionList.Len() > c.capacity { c.evictOldest() }\<close> of \<^verbatim>\<open>Set\<close>.
  Nothing in the source bounds it, so it is a partial function: \<open>None\<close> is the loop that
  never ends.
\<close>

partial_function (option) evict_loop :: "LRUCache \<Rightarrow> LRUCache option" where
  "evict_loop c =
     (if int (length (evictionList c)) > capacity c
      then evict_loop (snd (evictOldest c))
      else Some c)"

text \<open>
  \<^verbatim>\<open>Get\<close> takes the read lock for the map lookup only (lines 83 to 85), releases it, and
  does the rest under a write lock taken afterwards. \<open>Get_probe\<close> is the first critical
  section, \<open>Get_finish\<close> everything after it; \<open>Get\<close> runs one right after the other, as
  a caller that is alone does.
\<close>

definition Get_probe :: "LRUCache \<Rightarrow> string \<Rightarrow> Element option" where
  "Get_probe c key = items c key"

definition Get_finish ::
  "LRUCache \<Rightarrow> Element option \<Rightarrow> Time \<Rightarrow> CacheItem option \<times> LRUCache" where
  "Get_finish c probe now =
     (case probe of
        None \<Rightarrow> (None, c\<lparr>misses := misses c + 1\<rparr>)
      | Some element \<Rightarrow>
          (let item = elems c element
           in if ExpiresAt item \<noteq> None \<and> now > the (ExpiresAt item)
              then (let c1 = snd (evictElement c element)
                    in (None, c1\<lparr>misses := misses c1 + 1\<rparr>))
              else (Some item,
                    c\<lparr>evictionList := MoveToFront (evictionList c) element,
                      hits := hits c + 1\<rparr>)))"

definition Get :: "LRUCache \<Rightarrow> string \<Rightarrow> Time \<Rightarrow> CacheItem option \<times> LRUCache" where
  "Get c key now = Get_finish c (Get_probe c key) now"

definition Set ::
  "LRUCache \<Rightarrow> string \<Rightarrow> bytes \<Rightarrow> Duration \<Rightarrow> Time \<Rightarrow> (bool \<times> LRUCache) option" where
  "Set c key val ttl now =
     (let expiresAt = (if ttl > 0 then Some (now + ttl) else None);
          item = \<lparr>Key = key, Value = val, Size = int (length val),
                  CreatedAt = now, ExpiresAt = expiresAt\<rparr>
      in case items c key of
           Some element \<Rightarrow>
             (let oldItem = elems c element
              in Some (False,
                   c\<lparr>totalSize := totalSize c - Size oldItem + Size item,
                     elems := (elems c)(element := item),
                     evictionList := MoveToFront (evictionList c) element\<rparr>))
         | None \<Rightarrow>
             (let (c1, element) = PushFront c item;
                  c2 = c1\<lparr>items := (items c1)(key \<mapsto> element),
                          totalSize := totalSize c1 + Size item\<rparr>
              in map_option (\<lambda>c3. (True, c3)) (evict_loop c2)))"

definition Remove :: "LRUCache \<Rightarrow> string \<Rightarrow> bool \<times> LRUCache" where
  "Remove c key =
     (case items c key of
        Some element \<Rightarrow> evictElement c element
      | None \<Rightarrow> (False, c))"

definition Clear :: "LRUCache \<Rightarrow> LRUCache" where
  "Clear c = c\<lparr>items := Map.empty, evictionList := [], totalSize := 0\<rparr>"

definition LRUCache_Size :: "LRUCache \<Rightarrow> int" where
  "LRUCache_Size c = int (length (evictionList c))"

definition Capacity :: "LRUCache \<Rightarrow> int" where
  "Capacity c = capacity c"

text \<open>
  Go's integer division rounds towards zero, HOL's towards minus infinity; \<open>totalSize\<close>
  can be negative only after the two-step \<^verbatim>\<open>Get\<close> has raced, so the rule is written out.
  The \<^verbatim>\<open>HitRate\<close> field is a \<^verbatim>\<open>float64\<close> quotient and is left out of the record. The
  counters and \<open>totalSize\<close> are not wrapped around at 64 bits: no property below depends
  on more than \<open>2\<^sup>6\<^sup>3\<close> calls or bytes.
\<close>

definition go_div :: "int \<Rightarrow> int \<Rightarrow> int" where
  "go_div a b = (if (a < 0) = (b < 0) then \<bar>a\<bar> div \<bar>b\<bar> else - (\<bar>a\<bar> div \<bar>b\<bar>))"

definition Stats :: "LRUCache \<Rightarrow> CacheStats" where
  "Stats c =
     (let size = int (length (evictionList c));
          avgSize = (if size > 0 then go_div (totalSize c) size else 0)
      in \<lparr>Stats_Size = size, Stats_Capacity = capacity c, Hits = hits c,
          Misses = misses c, Evictions = evictions c, AvgSize = avgSize\<rparr>)"

subsection \<open>Histories of calls\<close>

text \<open>
  A call of one of the cache's methods, with the clock reading it sees. \<open>run\<close> makes a
  sequence of calls one after the other, as a single caller does, and records with
  \<open>touch\<close> the keys that are touched, the most recent first: a key is touched by every
  \<^verbatim>\<open>Set\<close> of it and by every \<^verbatim>\<open>Get\<close> that finds it. \<open>run\<close> is \<open>None\<close> when a call
  does not return.
\<close>

datatype op = OpSet string bytes Duration Time | OpGet string Time | OpRemove string | OpClear

definition apply_op :: "LRUCache \<Rightarrow> op \<Rightarrow> LRUCache option" where
  "apply_op c x =
     (case x of
        OpSet key val ttl now \<Rightarrow> map_option snd (Set c key val ttl now)
      | OpGet key now \<Rightarrow> Some (snd (Get c key now))
      | OpRemove key \<Rightarrow> Some (snd (Remove c key))
      | OpClear \<Rightarrow> Some (Clear c))"

definition touch :: "LRUCache \<Rightarrow> op \<Rightarrow> string list \<Rightarrow> string list" where
  "touch c x tr =
     (case x of
        OpSet key val ttl now \<Rightarrow> key # tr
      | OpGet key now \<Rightarrow> (if fst (Get c key now) \<noteq> None then key # tr else tr)
      | OpRemove key \<Rightarrow> tr
      | OpClear \<Rightarrow> tr)"

fun run :: "LRUCache \<Rightarrow> string list \<Rightarrow> op list \<Rightarrow> (LRUCache \<times> string list) option" where
  "run c tr [] = Some (c, tr)"
| "run c tr (x # xs) =
     (case apply_op c x of
        None \<Rightarrow> None
      | Some c' \<Rightarrow> run c' (touch c x tr) xs)"

text \<open>
  \<open>age tr k\<close> is the number of touches of other keys since \<open>k\<close> was last touched:
  the smaller, the more recently touched.
\<close>

fun age :: "string list \<Rightarrow> string \<Rightarrow> nat" where
  "age [] k = 0"
| "age (t # ts) k = (if t = k then 0 else Suc (age ts k))"

text \<open>
  The representation invariant: the list has no element twice, every element of the list
  is the map's entry for the key it holds and was allocated before \<open>nextElem\<close>, and every
  entry of the map is an element of the list holding that key. \<open>by_recency\<close> says that the
  list is in the order of the last touches.
\<close>

definition cache_wf :: "LRUCache \<Rightarrow> bool" where
  "cache_wf c \<longleftrightarrow>
     distinct (evictionList c)
     \<and> (\<forall>e \<in> set (evictionList c). items c (Key (elems c e)) = Some e \<and> e < nextElem c)
     \<and> (\<forall>k e. items c k = Some e \<longrightarrow> e \<in> set (evictionList c) \<and> Key (elems c e) = k)"

definition by_recency :: "LRUCache \<Rightarrow> string list \<Rightarrow> bool" where
  "by_recency c tr \<longleftrightarrow>
     sorted_wrt (\<lambda>a b. age tr (Key (elems c a)) < age tr (Key (elems c b))) (evictionList c)"

text \<open>The state of \<^verbatim>\<open>Set\<close> on a new key, right before its eviction loop.\<close>

definition pushed :: "LRUCache \<Rightarrow> string \<Rightarrow> bytes \<Rightarrow> Duration \<Rightarrow> Time \<Rightarrow> LRUCache" where
  "pushed c key val ttl now =
     c\<lparr>elems := (elems c)(nextElem c := \<lparr>Key = key, Value = val, Size = int (length val),
            CreatedAt = now, ExpiresAt = (if ttl > 0 then Some (now + ttl) else None)\<rparr>),
       evictionList := nextElem c # evictionList c,
       nextElem := Suc (nextElem c),
       items := (items c)(key \<mapsto> nextElem c),
       totalSize := totalSize c + int (length val)\<rparr>"

section \<open>The library functions the proxy calls\<close>

text \<open>
  The Go standard library is not part of the repository. The functions of \<^verbatim>\<open>strings\<close>,
  \<^verbatim>\<open>bytes\<close>, \<^verbatim>\<open>strconv\<close>, \<^verbatim>\<open>fmt\<close> and \<^verbatim>\<open>net/textproto\<close> that the proxy calls are
  written out here as the library documents them, on byte strings.
\<close>

definition CRLF :: string where
  "CRLF = [CHR 0x0D, CHR 0x0A]"

definition HasPrefix :: "string \<Rightarrow> string \<Rightarrow> bool" where
  "HasPrefix s p = prefix p s"

definition HasSuffix :: "string \<Rightarrow> string \<Rightarrow> bool" where
  "HasSuffix s p = suffix p s"

definition TrimPrefix :: "string \<Rightarrow> string \<Rightarrow> string" where
  "TrimPrefix s p = (if prefix p s then drop (length p) s else s)"

text \<open>
  \<open>cut_first sep s\<close> finds the first occurrence of \<open>sep\<close> in \<open>s\<close> and gives what is
  before and after it (the library's \<^verbatim>\<open>Index\<close>).
\<close>

fun cut_first :: "string \<Rightarrow> string \<Rightarrow> (string \<times> string) option" where
  "cut_first sep [] = (if sep = [] then Some ([], []) else None)"
| "cut_first sep (c # cs) =
     (if prefix sep (c # cs) then Some ([], drop (length sep) (c # cs))
      else (case cut_first sep cs of
              None \<Rightarrow> None
            | Some (a, b) \<Rightarrow> Some (c # a, b)))"

definition Contains :: "string \<Rightarrow> string \<Rightarrow> bool" where
  "Contains s substr = (cut_first substr s \<noteq> None)"

text \<open>
  \<^verbatim>\<open>Split(s, sep)\<close> for a separator that is not empty, the only kind the proxy passes:
  \<open>s\<close> is cut at every occurrence of \<open>sep\<close>, found from left to right.
\<close>

function Split :: "string \<Rightarrow> string \<Rightarrow> string list" where
  "Split s sep =
     (if sep = [] then [s]
      else (case cut_first sep s of
              None \<Rightarrow> [s]
            | Some (a, b) \<Rightarrow> a # Split b sep))"
  by pat_completeness auto
termination
proof (relation "measure (\<lambda>(s, sep). length s)")
  show "wf (measure (\<lambda>(s, sep). length s))" by simp
next
  fix s sep :: string and x2 x y
  assume "sep \<noteq> []" and "cut_first sep s = Some x2" and "(x, y) = x2"
  then have c: "cut_first sep s = Some (x, y)" by simp
  have "cut_first sep s = Some (a, b) \<Longrightarrow> sep \<noteq> [] \<Longrightarrow> length b < length s" for a b
  proof (induction s arbitrary: a)
    case Nil
    then show ?case by simp
  next
    case (Cons c cs)
    show ?case
    proof (cases "prefix sep (c # cs)")
      case True
      with Cons.prems show ?thesis by (cases sep) auto
    next
      case False
      with Cons.prems obtain a' where "cut_first sep cs = Some (a', b)"
        by (auto split: option.splits)
      from Cons.IH[OF this Cons.prems(2)] show ?thesis by simp
    qed
  qed
  from this[OF c \<open>sep \<noteq> []\<close>] show "((y, sep), (s, sep)) \<in> measure (\<lambda>(s, sep). length s)"
    by simp
qed

declare Split.simps [simp del]

text \<open>\<^verbatim>\<open>SplitN(s, sep, 2)\<close>: at most two pieces, cut at the first occurrence.\<close>

definition SplitN2 :: "string \<Rightarrow> string \<Rightarrow> string list" where
  "SplitN2 s sep =
     (case cut_first sep s of
        None \<Rightarrow> [s]
      | Some (a, b) \<Rightarrow> [a, b])"

text \<open>
  White space, for \<^verbatim>\<open>strings.TrimSpace\<close> and for \<^verbatim>\<open>fmt\<close>'s scanner: the six ASCII
  characters, and the UTF-8 encodings of the other code points with Unicode's White Space
  property (U+0085, U+00A0, U+1680, U+2000 to U+200A, U+2028, U+2029, U+202F, U+205F,
  U+3000).
\<close>

definition spaces :: "string list" where
  "spaces =
     [[CHR 0x09], [CHR 0x0A], [CHR 0x0B], [CHR 0x0C], [CHR 0x0D], [CHR 0x20],
      [CHR 0xC2, CHR 0x85], [CHR 0xC2, CHR 0xA0], [CHR 0xE1, CHR 0x9A, CHR 0x80],
      [CHR 0xE2, CHR 0x80, CHR 0x80], [CHR 0xE2, CHR 0x80, CHR 0x81],
      [CHR 0xE2, CHR 0x80, CHR 0x82], [CHR 0xE2, CHR 0x80, CHR 0x83],
      [CHR 0xE2, CHR 0x80, CHR 0x84], [CHR 0xE2, CHR 0x80, CHR 0x85],
      [CHR 0xE2, CHR 0x80, CHR 0x86], [CHR 0xE2, CHR 0x80, CHR 0x87],
      [CHR 0xE2, CHR 0x80, CHR 0x88], [CHR 0xE2, CHR 0x80, CHR 0x89],
      [CHR 0xE2, CHR 0x80, CHR 0x8A], [CHR 0xE2, CHR 0x80, CHR 0xA8],
      [CHR 0xE2, CHR 0x80, CHR 0xA9], [CHR 0xE2, CHR 0x80, CHR 0xAF],
      [CHR 0xE2, CHR 0x81, CHR 0x9F], [CHR 0xE3, CHR 0x80, CHR 0x80]]"

text \<open>The rest of \<open>s\<close> after one leading white space character, if it starts with one.\<close>

definition leading_space :: "string \<Rightarrow> string option" where
  "leading_space s =
     (case filter (\<lambda>w. prefix w s) spaces of
        [] \<Rightarrow> None
      | w # _ \<Rightarrow> Some (drop (length w) s))"

function TrimLeftSpace :: "string \<Rightarrow> string" where
  "TrimLeftSpace s =
     (case leading_space s of
        None \<Rightarrow> s
      | Some r \<Rightarrow> TrimLeftSpace r)"
  by pat_completeness auto
termination
proof (relation "measure length")
  show "wf (measure length)" by simp
next
  fix s r :: string
  assume "leading_space s = Some r"
  then obtain w ws where f: "filter (\<lambda>w. prefix w s) spaces = w # ws"
    and r: "r = drop (length w) s"
    by (auto simp: leading_space_def split: list.splits)
  from f have "w \<in> set (filter (\<lambda>w. prefix w s) spaces)" by simp
  then have w: "w \<in> set spaces" "prefix w s" by simp_all
  from w(1) have "w \<noteq> []" by (auto simp: spaces_def)
  with w(2) have "s \<noteq> []" by auto
  with \<open>w \<noteq> []\<close> show "(r, s) \<in> measure length" by (simp add: r)
qed

declare TrimLeftSpace.simps [simp del]

text \<open>
  A white space character is found at the end of a string by decoding its last code
  point; the encodings above are the only byte strings that decode to one, so the string
  ends with a white space character exactly when its reversal starts with a reversed one.
\<close>

definition trailing_space :: "string \<Rightarrow> string option" where
  "trailing_space s =
     (case filter (\<lambda>w. suffix w s) spaces of
        [] \<Rightarrow> None
      | w # _ \<Rightarrow> Some (take (length s - length w) s))"

function TrimRightSpace :: "string \<Rightarrow> string" where
  "TrimRightSpace s =
     (case trailing_space s of
        None \<Rightarrow> s
      | Some r \<Rightarrow> TrimRightSpace r)"
  by pat_completeness auto
termination
proof (relation "measure length")
  show "wf (measure length)" by simp
next
  fix s r :: string
  assume "trailing_space s = Some r"
  then obtain w ws where f: "filter (\<lambda>w. suffix w s) spaces = w # ws"
    and r: "r = take (length s - length w) s"
    by (auto simp: trailing_space_def split: list.splits)
  from f have "w \<in> set (filter (\<lambda>w. suffix w s) spaces)" by simp
  then have w: "w \<in> set spaces" "suffix w s" by simp_all
  from w(1) have "w \<noteq> []" by (auto simp: spaces_def)
  with w(2) have "s \<noteq> []" by (auto simp: suffix_def)
  with \<open>w \<noteq> []\<close> show "(r, s) \<in> measure length" by (simp add: r)
qed

declare TrimRightSpace.simps [simp del]

definition TrimSpace :: "string \<Rightarrow> string" where
  "TrimSpace s = TrimRightSpace (TrimLeftSpace s)"

subsection \<open>Numbers\<close>

definition is_digit :: "char \<Rightarrow> bool" where
  "is_digit c = (c \<in> set ''0123456789'')"

definition digit_value :: "char \<Rightarrow> nat" where
  "digit_value c = (of_char c :: nat) - 48"

text \<open>The value of a string of decimal digits; \<open>None\<close> when a character is not a digit.\<close>

fun decimal_from :: "nat \<Rightarrow> string \<Rightarrow> nat option" where
  "decimal_from acc [] = Some acc"
| "decimal_from acc (c # cs) =
     (if is_digit c then decimal_from (10 * acc + digit_value c) cs else None)"

definition decimal :: "string \<Rightarrow> nat option" where
  "decimal s = (if s = [] then None else decimal_from 0 s)"

text \<open>
  \<^verbatim>\<open>strconv.ParseInt(s, 10, 64)\<close>, which is what \<^verbatim>\<open>strconv.Atoi\<close> computes where \<^verbatim>\<open>int\<close>
  has 64 bits: an optional sign, then at least one decimal digit and nothing else; a
  value outside the range of \<^verbatim>\<open>int64\<close> is an error.
\<close>

definition ParseInt10 :: "string \<Rightarrow> int option" where
  "ParseInt10 s =
     (let (neg, ds) =
            (case s of
               [] \<Rightarrow> (False, [])
             | c # cs \<Rightarrow>
                 if c = CHR ''-'' then (True, cs)
                 else if c = CHR ''+'' then (False, cs)
                 else (False, s))
      in case decimal ds of
           None \<Rightarrow> None
         | Some n \<Rightarrow>
             (let v = (if neg then - int n else int n)
              in if - (2 ^ 63) \<le> v \<and> v < 2 ^ 63 then Some v else None))"

definition Atoi :: "string \<Rightarrow> int option" where
  "Atoi s = ParseInt10 s"

text \<open>
  \<^verbatim>\<open>fmt.Sscanf(s, "%d", &n)\<close>: leading white space is skipped, but a newline there is an
  error; then come an optional sign and the longest run of decimal digits, which must not
  be empty and is handed to \<^verbatim>\<open>ParseInt\<close>. What follows the number is not read, so
  \<^verbatim>\<open>2_00\<close> and \<^verbatim>\<open>200 OK\<close> scan as 2 and as 200. \<open>None\<close> is an error.
\<close>

function skip_space :: "string \<Rightarrow> string option" where
  "skip_space s =
     (if prefix [CHR 0x0A] s \<or> prefix CRLF s then None
      else (case leading_space s of
              None \<Rightarrow> Some s
            | Some r \<Rightarrow> skip_space r))"
  by pat_completeness auto
termination
proof (relation "measure length")
  show "wf (measure length)" by simp
next
  fix s r :: string
  assume "leading_space s = Some r"
  then obtain w ws where f: "filter (\<lambda>w. prefix w s) spaces = w # ws"
    and r: "r = drop (length w) s"
    by (auto simp: leading_space_def split: list.splits)
  from f have "w \<in> set (filter (\<lambda>w. prefix w s) spaces)" by simp
  then have w: "w \<in> set spaces" "prefix w s" by simp_all
  from w(1) have "w \<noteq> []" by (auto simp: spaces_def)
  with w(2) have "s \<noteq> []" by auto
  with \<open>w \<noteq> []\<close> show "(r, s) \<in> measure length" by (simp add: r)
qed

declare skip_space.simps [simp del]

definition Sscanf_d :: "string \<Rightarrow> int option" where
  "Sscanf_d s =
     (case skip_space s of
        None \<Rightarrow> None
      | Some r \<Rightarrow>
          (let (sign, r1) =
                 (case r of
                    [] \<Rightarrow> ([], [])
                  | c # cs \<Rightarrow> if c = CHR ''-'' \<or> c = CHR ''+'' then ([c], cs) else ([], r));
               tok = takeWhile is_digit r1
           in if tok = [] then None else ParseInt10 (sign @ tok)))"

text \<open>\<^verbatim>\<open>%d\<close> of \<^verbatim>\<open>fmt.Fprintf\<close>: the decimal digits, after a minus sign when negative.\<close>

function digits_of :: "nat \<Rightarrow> string" where
  "digits_of n =
     (if n < 10 then [''0123456789'' ! n]
      else digits_of (n div 10) @ [''0123456789'' ! (n mod 10)])"
  by pat_completeness auto
termination
  by (relation "measure id") auto

declare digits_of.simps [simp del]

definition Itoa :: "int \<Rightarrow> string" where
  "Itoa i = (if i < 0 then CHR ''-'' # digits_of (nat (- i)) else digits_of (nat i))"

text \<open>
  The wrap-around of Go's 64-bit signed arithmetic: the value an \<^verbatim>\<open>int64\<close> (and an
  \<^verbatim>\<open>int\<close>, a \<^verbatim>\<open>time.Duration\<close>) holds after a computation whose exact result is \<open>x\<close>.
\<close>

definition int64 :: "int \<Rightarrow> int" where
  "int64 x = (x + 2 ^ 63) mod 2 ^ 64 - 2 ^ 63"

subsection \<open>Header maps\<close>

text \<open>
  \<^verbatim>\<open>http.Header\<close> is a map from keys to lists of values. It is modelled by the list of its
  entries, one per key, in the order in which \<^verbatim>\<open>range\<close> visits them (an order Go leaves
  open); new keys are put at the end. \<^verbatim>\<open>Add\<close>, \<^verbatim>\<open>Set\<close>, \<^verbatim>\<open>Get\<close> and \<^verbatim>\<open>Del\<close> work on
  the canonical form of the key they are given.
\<close>

type_synonym Header = "(string \<times> string list) list"

definition validHeaderFieldByte :: "char \<Rightarrow> bool" where
  "validHeaderFieldByte c =
     (c \<in> set ''abcdefghijklmnopqrstuvwxyzABCDEFGHIJKLMNOPQRSTUVWXYZ0123456789''
      \<or> c \<in> set [CHR ''!'', CHR ''#'', CHR ''$'', CHR ''%'', CHR ''&'', CHR 0x27, CHR ''*'',
                  CHR ''+'', CHR ''-'', CHR ''.'', CHR ''^'', CHR ''_'', CHR 0x60, CHR ''|'',
                  CHR ''~''])"

definition to_upper :: "char \<Rightarrow> char" where
  "to_upper c =
     (case cut_first [c] ''abcdefghijklmnopqrstuvwxyz'' of
        Some (a, b) \<Rightarrow> ''ABCDEFGHIJKLMNOPQRSTUVWXYZ'' ! length a
      | None \<Rightarrow> c)"

definition to_lower :: "char \<Rightarrow> char" where
  "to_lower c =
     (case cut_first [c] ''ABCDEFGHIJKLMNOPQRSTUVWXYZ'' of
        Some (a, b) \<Rightarrow> ''abcdefghijklmnopqrstuvwxyz'' ! length a
      | None \<Rightarrow> c)"

text \<open>Upper case at the start and after each dash, lower case elsewhere.\<close>

fun canonical_from :: "bool \<Rightarrow> string \<Rightarrow> string" where
  "canonical_from upper [] = []"
| "canonical_from upper (c # cs) =
     (let c' = (if upper then to_upper c else to_lower c)
      in c' # canonical_from (c' = CHR ''-'') cs)"

definition CanonicalMIMEHeaderKey :: "string \<Rightarrow> string" where
  "CanonicalMIMEHeaderKey s =
     (if list_all validHeaderFieldByte s then canonical_from True s else s)"

definition header_lookup :: "Header \<Rightarrow> string \<Rightarrow> string list option" where
  "header_lookup h key = map_of h key"

fun header_store :: "Header \<Rightarrow> string \<Rightarrow> string list \<Rightarrow> Header" where
  "header_store [] key vs = [(key, vs)]"
| "header_store ((k, old) # h) key vs =
     (if k = key then (k, vs) # h else (k, old) # header_store h key vs)"

definition header_Add :: "Header \<Rightarrow> string \<Rightarrow> string \<Rightarrow> Header" where
  "header_Add h key val =
     (let k = CanonicalMIMEHeaderKey key
      in header_store h k (case header_lookup h k of None \<Rightarrow> [val] | Some vs \<Rightarrow> vs @ [val]))"

definition header_Set :: "Header \<Rightarrow> string \<Rightarrow> string \<Rightarrow> Header" where
  "header_Set h key val = header_store h (CanonicalMIMEHeaderKey key) [val]"

definition header_Get :: "Header \<Rightarrow> string \<Rightarrow> string" where
  "header_Get h key =
     (case header_lookup h (CanonicalMIMEHeaderKey key) of
        None \<Rightarrow> []
      | Some [] \<Rightarrow> []
      | Some (v # _) \<Rightarrow> v)"

definition header_Del :: "Header \<Rightarrow> string \<Rightarrow> Header" where
  "header_Del h key = filter (\<lambda>(k, vs). k \<noteq> CanonicalMIMEHeaderKey key) h"

text \<open>
  The loop \<^verbatim>\<open>for key, values := range src { for _, value := range values { dst.Add(key,
  value) } }\<close>, which the proxy runs three times.
\<close>

definition header_AddAll :: "Header \<Rightarrow> Header \<Rightarrow> Header" where
  "header_AddAll dst src =
     foldl (\<lambda>h (key, values). foldl (\<lambda>h' value. header_Add h' key value) h values) dst src"

section \<open>The proxy pipeline (proxy handler)\<close>

text \<open>
  Of \<^verbatim>\<open>config.Config\<close>, the fields the proxy handler and the worker pool read. Go's
  \<^verbatim>\<open>int\<close> is taken to be 64 bits wide, as on the platforms the server is built for.
\<close>

record Config =
  AllowedDomains :: "string list"
  CacheTTL :: int
  ProxyTimeout :: int
  MaxConnections :: int

text \<open>
  Of a \<^verbatim>\<open>url.URL\<close>, the two fields the handler reads and the text its \<^verbatim>\<open>String()\<close>
  gives. Of an inbound \<^verbatim>\<open>http.Request\<close>, what the handler reads; \<open>query_url\<close> is the value
  of \<^verbatim>\<open>r.URL.Query().Get("url")\<close>, empty when the parameter is absent.
\<close>

record URL =
  Scheme :: string
  Host :: string
  URL_String :: string

record Request =
  Method :: string
  URL :: URL
  query_url :: string
  ReqHeader :: Header
  ReqHost :: string
  RemoteAddr :: string
  ReqBody :: bytes

text \<open>
  The outbound request \<^verbatim>\<open>cloneRequest\<close> builds, and the upstream's \<^verbatim>\<open>http.Response\<close>:
  \<open>RespBody\<close> is what \<^verbatim>\<open>io.ReadAll(resp.Body)\<close> gives, an error or the bytes.
\<close>

record ProxyRequest =
  out_Method :: string
  out_URL :: URL
  out_Header :: Header
  out_Body :: bytes

record Response =
  RespStatusCode :: int
  RespHeader :: Header
  RespBody :: "string + bytes"

record CachedResponse =
  StatusCode :: int
  Header :: Header
  Body :: bytes

text \<open>
  What the handler does not compute itself: \<^verbatim>\<open>url.Parse\<close>, \<^verbatim>\<open>time.Parse\<close> (layout first,
  then the value), the text \<^verbatim>\<open>%q\<close> prints for a string, the HTTP client's \<^verbatim>\<open>Do\<close> (an
  error text, or the upstream's response), and the clock. They are parameters of the
  model.
\<close>

record Env =
  url_Parse :: "string \<Rightarrow> string + URL"
  time_Parse :: "string \<Rightarrow> string \<Rightarrow> Time option"
  Quote :: "string \<Rightarrow> string"
  client_Do :: "ProxyRequest \<Rightarrow> string + Response"
  clock :: Time

text \<open>
  The handler holds its cache as a value of the interface \<^verbatim>\<open>cache.Cache\<close>; of its
  methods it calls \<^verbatim>\<open>Get\<close> and \<^verbatim>\<open>Set\<close>. \<open>'c\<close> is the state of the implementation
  behind the interface.
\<close>

record 'c Cache =
  cache_Get :: "'c \<Rightarrow> string \<Rightarrow> Time \<Rightarrow> CacheItem option \<times> 'c"
  cache_Set :: "'c \<Rightarrow> string \<Rightarrow> bytes \<Rightarrow> Duration \<Rightarrow> Time \<Rightarrow> bool \<times> 'c"

text \<open>
  What a call of the handler writes to its \<^verbatim>\<open>http.ResponseWriter\<close>: either one call
  \<^verbatim>\<open>http.Error(w, msg, code)\<close>; or the header map, \<^verbatim>\<open>WriteHeader(status)\<close> and the body; or
  header map and status only, when reading the upstream's body failed. (\<^verbatim>\<open>http.Error\<close>
  sends \<open>msg\<close> followed by a newline as the body, as plain text.) The handler's argument
  \<open>w\<close> is the header map of the writer as the handler finds it.
\<close>

datatype response =
    HttpError string int
  | Written Header int bytes
  | HeadersOnly Header int

fun status_of :: "response \<Rightarrow> int" where
  "status_of (HttpError msg code) = code"
| "status_of (Written h status body) = status"
| "status_of (HeadersOnly h status) = status"

subsection \<open>Policy\<close>

definition isDomainAllowed :: "Config \<Rightarrow> string \<Rightarrow> bool" where
  "isDomainAllowed cfg host =
     (if length (AllowedDomains cfg) = 0 then True
      else list_ex (\<lambda>domain. HasSuffix host domain) (AllowedDomains cfg))"

definition cacheables :: "string \<Rightarrow> bool" where
  "cacheables method = (method = ''GET'' \<or> method = ''HEAD'')"

definition isCacheable :: "Request \<Rightarrow> bool" where
  "isCacheable r =
     (if \<not> cacheables (Method r) then False
      else if header_Get (ReqHeader r) ''Authorization'' \<noteq> [] then False
      else if Contains (header_Get (ReqHeader r) ''Cache-Control'') ''no-store'' then False
      else True)"

definition isResponseCacheable :: "Response \<Rightarrow> bool" where
  "isResponseCacheable resp =
     (if RespStatusCode resp \<noteq> 200 then False
      else if Contains (header_Get (RespHeader resp) ''Cache-Control'') ''no-store'' then False
      else if header_Get (RespHeader resp) ''Set-Cookie'' \<noteq> [] then False
      else True)"

definition createCacheKey :: "Request \<Rightarrow> string" where
  "createCacheKey r = Method r @ '':'' @ URL_String (URL r)"

text \<open>
  \<^verbatim>\<open>http.NewRequest\<close> reads an empty method as \<^verbatim>\<open>GET\<close>, refuses a method that is not a
  token, and parses the URL text it is given.
\<close>

definition validMethod :: "string \<Rightarrow> bool" where
  "validMethod method = (length method > 0 \<and> list_all validHeaderFieldByte method)"

definition cloneRequest :: "Env \<Rightarrow> Request \<Rightarrow> string + ProxyRequest" where
  "cloneRequest env r =
     (let method = (if Method r = [] then ''GET'' else Method r)
      in if \<not> validMethod method
         then Inl (''net/http: invalid method '' @ Quote env method)
         else (case url_Parse env (URL_String (URL r)) of
                 Inl err \<Rightarrow> Inl err
               | Inr u \<Rightarrow>
                   (let h0 = header_AddAll [] (ReqHeader r);
                        h1 = header_Set h0 ''X-Forwarded-For'' (RemoteAddr r);
                        h2 = header_Set h1 ''X-Forwarded-Host'' (ReqHost r);
                        h3 = header_Del h2 ''Connection''
                    in Inr \<lparr>out_Method = method, out_URL = u, out_Header = h3,
                            out_Body = ReqBody r\<rparr>)))"

subsection \<open>The time to live\<close>

definition Second :: Duration where
  "Second = 1000000000"

text \<open>
  \<^verbatim>\<open>time.Until(t)\<close> is \<^verbatim>\<open>t.Sub(time.Now())\<close>, which stops at the least and the greatest
  \<^verbatim>\<open>Duration\<close>.
\<close>

definition Until :: "Time \<Rightarrow> Time \<Rightarrow> Duration" where
  "Until t t0 = max (- (2 ^ 63)) (min (2 ^ 63 - 1) (t - t0))"

definition RFC1123 :: string where
  "RFC1123 = ''Mon, 02 Jan 2006 15:04:05 MST''"

definition RFC1123Z :: string where
  "RFC1123Z = ''Mon, 02 Jan 2006 15:04:05 -0700''"

definition formats :: "string list" where
  "formats =
     [RFC1123, RFC1123Z, ''Mon, 02-Jan-2006 15:04:05 MST'',
      ''Monday, 02-Jan-2006 15:04:05 MST'']"

text \<open>The loop over the directives of \<^verbatim>\<open>Cache-Control\<close>; \<open>None\<close> when it falls through.\<close>

fun scan_directives :: "string list \<Rightarrow> Duration option" where
  "scan_directives [] = None"
| "scan_directives (directive # directives) =
     (let directive = TrimSpace directive
      in if HasPrefix directive ''max-age=''
         then (case Atoi (TrimPrefix directive ''max-age='') of
                 Some seconds \<Rightarrow> Some (int64 (seconds * Second))
               | None \<Rightarrow> scan_directives directives)
         else scan_directives directives)"

text \<open>The loop over the date formats; \<open>None\<close> when it falls through.\<close>

fun try_formats :: "Env \<Rightarrow> string list \<Rightarrow> string \<Rightarrow> Time option" where
  "try_formats env [] expires = None"
| "try_formats env (format # fs) expires =
     (case time_Parse env format expires of
        Some expiresTime \<Rightarrow> Some expiresTime
      | None \<Rightarrow> try_formats env fs expires)"

definition calculateTTL :: "Env \<Rightarrow> Config \<Rightarrow> Response \<Rightarrow> Duration" where
  "calculateTTL env cfg resp =
     (let cacheControl = header_Get (RespHeader resp) ''Cache-Control''
      in case (if cacheControl \<noteq> [] then scan_directives (Split cacheControl '','') else None) of
           Some ttl \<Rightarrow> ttl
         | None \<Rightarrow>
             (let expires = header_Get (RespHeader resp) ''Expires''
              in case (if expires \<noteq> [] then try_formats env formats expires else None) of
                   Some expiresTime \<Rightarrow> Until expiresTime (clock env)
                 | None \<Rightarrow> int64 (CacheTTL cfg * Second)))"

text \<open>Lines 296 to 300 of \<^verbatim>\<open>cacheResponse\<close>: the time to live it hands to the cache.\<close>

definition cacheResponse_ttl :: "Env \<Rightarrow> Config \<Rightarrow> Response \<Rightarrow> Duration" where
  "cacheResponse_ttl env cfg resp =
     (let ttl = calculateTTL env cfg resp
      in if ttl \<le> 0 then int64 (CacheTTL cfg * Second) else ttl)"

subsection \<open>The stored form of a response\<close>

text \<open>\<^verbatim>\<open>serializeResponse\<close> never fails: its error result is always \<^verbatim>\<open>nil\<close>.\<close>

definition serializeResponse :: "CachedResponse \<Rightarrow> bytes" where
  "serializeResponse resp =
     Itoa (StatusCode resp) @ CRLF
     @ concat (map (\<lambda>(key, values). concat (map (\<lambda>value. key @ '': '' @ value @ CRLF) values))
         (Header resp))
     @ CRLF
     @ Body resp"

definition parseCachedResponse :: "bytes \<Rightarrow> string + CachedResponse" where
  "parseCachedResponse data =
     (case SplitN2 data (CRLF @ CRLF) of
        [head, body] \<Rightarrow>
          (case Split head CRLF of
             [] \<Rightarrow> Inl ''invalid cached response headers''
           | statusLine # headerLines \<Rightarrow>
               (case Sscanf_d statusLine of
                  None \<Rightarrow> Inl ''invalid status code''
                | Some statusCode \<Rightarrow>
                    (let headers =
                           foldl (\<lambda>h line.
                                    (case SplitN2 line '': '' of
                                       [key, val] \<Rightarrow> header_Add h key val
                                     | _ \<Rightarrow> h))
                                 [] headerLines
                     in Inr \<lparr>StatusCode = statusCode, Header = headers, Body = body\<rparr>)))
      | _ \<Rightarrow> Inl ''invalid cached response format'')"

definition cacheResponse ::
  "Env \<Rightarrow> Config \<Rightarrow> 'c Cache \<Rightarrow> 'c \<Rightarrow> string \<Rightarrow> Response \<Rightarrow> bytes \<Rightarrow> 'c" where
  "cacheResponse env cfg ch c key resp body =
     (let ttl = cacheResponse_ttl env cfg resp;
          cachedResp = \<lparr>StatusCode = RespStatusCode resp, Header = RespHeader resp,
                        Body = body\<rparr>;
          serialized = serializeResponse cachedResp
      in snd (cache_Set ch c key serialized ttl (clock env)))"

subsection \<open>The handler\<close>

text \<open>
  \<^verbatim>\<open>handleRequest\<close>, in the three stretches its comments mark. Lines 72 to 89 settle the
  target: the request to go on with, or the error written.
\<close>

definition resolveTarget :: "Env \<Rightarrow> Request \<Rightarrow> response + Request" where
  "resolveTarget env r =
     (let targetURLStr = query_url r
      in if targetURLStr \<noteq> []
         then (case url_Parse env targetURLStr of
                 Inl err \<Rightarrow> Inl (HttpError ''Invalid URL format'' 400)
               | Inr parsedURL \<Rightarrow> Inr (r\<lparr>URL := parsedURL\<rparr>))
         else if Scheme (URL r) = [] \<or> Host (URL r) = []
         then Inl (HttpError ''Invalid proxy request. URL must include scheme and host.'' 400)
         else Inr r)"

text \<open>
  Lines 98 to 133: the cached response to replay, if the request is cacheable, the cache
  has its key and the stored bytes parse.
\<close>

definition cacheLookup ::
  "Env \<Rightarrow> 'c Cache \<Rightarrow> 'c \<Rightarrow> Request \<Rightarrow> CachedResponse option \<times> 'c" where
  "cacheLookup env ch c r =
     (if isCacheable r
      then (case cache_Get ch c (createCacheKey r) (clock env) of
              (Some item, c') \<Rightarrow>
                (case parseCachedResponse (Value item) of
                   Inr cachedResp \<Rightarrow> (Some cachedResp, c')
                 | Inl err \<Rightarrow> (None, c'))
            | (None, c') \<Rightarrow> (None, c'))
      else (None, c))"

text \<open>Lines 135 to 182: the request is forwarded and the upstream's answer passed on.\<close>

definition forwardRequest ::
  "Env \<Rightarrow> Config \<Rightarrow> 'c Cache \<Rightarrow> 'c \<Rightarrow> Header \<Rightarrow> Request \<Rightarrow> response \<times> 'c" where
  "forwardRequest env cfg ch c w r =
     (case cloneRequest env r of
        Inl err \<Rightarrow> (HttpError (''Error creating proxy request: '' @ err) 500, c)
      | Inr proxyReq \<Rightarrow>
          (case client_Do env proxyReq of
             Inl err \<Rightarrow> (HttpError (''Error forwarding request: '' @ err) 502, c)
           | Inr resp \<Rightarrow>
               (let h0 = header_AddAll w (RespHeader resp);
                    h1 = header_Set h0 ''X-Proxy-Server'' ''Go-Proxy-Server/1.0'';
                    h2 = header_Set h1 ''X-Cache'' ''MISS''
                in case RespBody resp of
                     Inl err \<Rightarrow> (HeadersOnly h2 (RespStatusCode resp), c)
                   | Inr body \<Rightarrow>
                       (let c2 = (if isCacheable r \<and> isResponseCacheable resp
                                  then cacheResponse env cfg ch c (createCacheKey r) resp body
                                  else c)
                        in (Written h2 (RespStatusCode resp) body, c2)))))"

definition handleRequest ::
  "Env \<Rightarrow> Config \<Rightarrow> 'c Cache \<Rightarrow> 'c \<Rightarrow> Header \<Rightarrow> Request \<Rightarrow> response \<times> 'c" where
  "handleRequest env cfg ch c w r0 =
     (case resolveTarget env r0 of
        Inl e \<Rightarrow> (e, c)
      | Inr r \<Rightarrow>
          if \<not> isDomainAllowed cfg (Host (URL r))
          then (HttpError ''Domain not allowed'' 403, c)
          else (case cacheLookup env ch c r of
                  (Some cachedResp, c1) \<Rightarrow>
                    (Written
                       (header_Set (header_AddAll w (Header cachedResp)) ''X-Cache'' ''HIT'')
                       (StatusCode cachedResp) (Body cachedResp), c1)
                | (None, c1) \<Rightarrow> forwardRequest env cfg ch c1 w r))"

subsection \<open>The precedence of the sources of the time to live, in the spec's words\<close>

text \<open>
  The values of the \<^verbatim>\<open>max-age=\<close> directives of a \<^verbatim>\<open>Cache-Control\<close> header that parse
  as integers, in the order of the directives; and the times the known formats give for
  an \<^verbatim>\<open>Expires\<close> header, in the order of the formats.
\<close>

definition max_age_values :: "string \<Rightarrow> int list" where
  "max_age_values cacheControl =
     List.map_filter
       (\<lambda>d. if prefix ''max-age='' (TrimSpace d) then Atoi (drop 8 (TrimSpace d)) else None)
       (Split cacheControl '','')"

definition expires_times :: "Env \<Rightarrow> string \<Rightarrow> Time list" where
  "expires_times env expires =
     (if expires = [] then [] else List.map_filter (\<lambda>f. time_Parse env f expires) formats)"

definition derived_ttl :: "Env \<Rightarrow> Config \<Rightarrow> Response \<Rightarrow> Duration" where
  "derived_ttl env cfg resp =
     (case max_age_values (header_Get (RespHeader resp) ''Cache-Control'') of
        seconds # _ \<Rightarrow> int64 (seconds * 1000000000)
      | [] \<Rightarrow>
          (case expires_times env (header_Get (RespHeader resp) ''Expires'') of
             t # _ \<Rightarrow> Until t (clock env)
           | [] \<Rightarrow> int64 (CacheTTL cfg * 1000000000)))"

subsection \<open>Values for the examples\<close>

text \<open>
  An environment for the examples: no URL text parses, the client reaches no upstream,
  the clock stands one microsecond after the Unix epoch, and of \<^verbatim>\<open>time.Parse\<close> only one
  value is known, the epoch itself in the first of the formats.
\<close>

definition example_url_Parse :: "string \<Rightarrow> string + URL" where
  "example_url_Parse s = Inl ''parse error''"

definition example_time_Parse :: "string \<Rightarrow> string \<Rightarrow> Time option" where
  "example_time_Parse layout v =
     (if layout = RFC1123 \<and> v = ''Thu, 01 Jan 1970 00:00:00 GMT'' then Some 0 else None)"

definition example_Quote :: "string \<Rightarrow> string" where
  "example_Quote s = [CHR 0x22] @ s @ [CHR 0x22]"

definition example_client_Do :: "ProxyRequest \<Rightarrow> string + Response" where
  "example_client_Do req = Inl ''connection refused''"

definition example_env :: Env where
  "example_env =
     \<lparr>url_Parse = example_url_Parse, time_Parse = example_time_Parse,
      Quote = example_Quote, client_Do = example_client_Do, clock = 1000\<rparr>"

definition example_config :: Config where
  "example_config =
     \<lparr>AllowedDomains = [''example.com''], CacheTTL = 3600, ProxyTimeout = 30,
      MaxConnections = 100\<rparr>"

text \<open>A cache that holds nothing and keeps nothing, behind the interface.\<close>

definition empty_Get :: "unit \<Rightarrow> string \<Rightarrow> Time \<Rightarrow> CacheItem option \<times> unit" where
  "empty_Get c key t = (None, c)"

definition empty_Set :: "unit \<Rightarrow> string \<Rightarrow> bytes \<Rightarrow> Duration \<Rightarrow> Time \<Rightarrow> bool \<times> unit" where
  "empty_Set c key val ttl t = (True, c)"

definition empty_cache :: "unit Cache" where
  "empty_cache = \<lparr>cache_Get = empty_Get, cache_Set = empty_Set\<rparr>"

definition example_request :: "string \<Rightarrow> string \<Rightarrow> Request" where
  "example_request method host =
     \<lparr>Method = method,
      URL = \<lparr>Scheme = ''http'', Host = host, URL_String = ''http://'' @ host @ ''/''\<rparr>,
      query_url = [], ReqHeader = [], ReqHost = host, RemoteAddr = ''192.0.2.1:4711'',
      ReqBody = []\<rparr>"

definition example_response :: "Header \<Rightarrow> Response" where
  "example_response h = \<lparr>RespStatusCode = 200, RespHeader = h, RespBody = Inr ''ok''\<rparr>"

section \<open>The worker pool\<close>

text \<open>
  A buffered channel: its capacity, the values waiting in it, and whether it is closed.
  A step of a goroutine on it returns, panics, or blocks the goroutine. Sending on a
  closed channel panics, whatever the buffer holds; so does closing it again.
\<close>

record 'j Chan =
  chan_cap :: int
  chan_buf :: "'j list"
  chan_closed :: bool

text \<open>
  What a call does: it returns, it panics with a message, the runtime ends the process
  with a fatal error (which no \<^verbatim>\<open>recover\<close> catches), or the goroutine waits.
\<close>

datatype 'a outcome = Returns 'a | Panics string | Fatal string | Blocks

text \<open>
  What the worker pool asks of the Go runtime. \<open>maxAlloc\<close> and \<open>hchanSize\<close> are the
  runtime's constants of these names: the largest allocation it admits and the size of a
  channel's header. \<open>chan_memory n\<close> tells whether the memory for the buffer of a channel
  of \<open>n\<close> job pointers is there when it is asked for, and \<open>can_start i\<close> whether the
  \<open>i\<close>-th worker goroutine can be started; when either is not, the runtime ends the
  process. Memory of a fixed size, as for the pool itself, is taken to be there.
\<close>

record Runtime =
  maxAlloc :: int
  hchanSize :: int
  chan_memory :: "int \<Rightarrow> bool"
  can_start :: "int \<Rightarrow> bool"

text \<open>
  \<^verbatim>\<open>make(chan *job, n)\<close>, the runtime's \<^verbatim>\<open>makechan\<close>. An element is a pointer, of 8 bytes.
  The size of the buffer is the product of the element size and \<^verbatim>\<open>uintptr(n)\<close>, as
  \<^verbatim>\<open>math.MulUintptr\<close> gives it: the product modulo \<open>2\<^sup>6\<^sup>4\<close>, and whether it overflowed.
  \<^verbatim>\<open>makechan\<close> panics when it overflowed, when it exceeds \<open>maxAlloc - hchanSize\<close>, and
  when \<open>n\<close> is negative. Then the buffer is allocated; when the memory is not there, the
  runtime ends the process.
\<close>

definition elem_size :: int where
  "elem_size = 8"

definition make_chan :: "Runtime \<Rightarrow> int \<Rightarrow> 'j Chan outcome" where
  "make_chan rt n =
     (let product = elem_size * (n mod 2 ^ 64);
          mem = product mod 2 ^ 64;
          overflow = (2 ^ 64 \<le> product)
      in if overflow \<or> mem > maxAlloc rt - hchanSize rt \<or> n < 0
         then Panics ''makechan: size out of range''
         else if \<not> chan_memory rt n then Fatal ''runtime: out of memory''
         else Returns \<lparr>chan_cap = n, chan_buf = [], chan_closed = False\<rparr>)"

definition chan_send :: "'j Chan \<Rightarrow> 'j \<Rightarrow> 'j Chan outcome" where
  "chan_send q j =
     (if chan_closed q then Panics ''send on closed channel''
      else if int (length (chan_buf q)) < chan_cap q then Returns (q\<lparr>chan_buf := chan_buf q @ [j]\<rparr>)
      else Blocks)"

definition chan_close :: "'j Chan \<Rightarrow> 'j Chan outcome" where
  "chan_close q =
     (if chan_closed q then Panics ''close of closed channel''
      else Returns (q\<lparr>chan_closed := True\<rparr>))"

text \<open>
  The pool: its queue, \<open>maxWorkers\<close>, and the count of its wait group, which is the number
  of worker goroutines that were started and have not returned.
\<close>

record 'j WorkerPool =
  jobQueue :: "'j Chan"
  maxWorkers :: int
  wg :: int

text \<open>The loop of \<^verbatim>\<open>start\<close>, from \<open>i\<close> on: one \<^verbatim>\<open>wg.Add(1)\<close> and one goroutine a round.\<close>

function start_from :: "Runtime \<Rightarrow> int \<Rightarrow> 'j WorkerPool \<Rightarrow> 'j WorkerPool outcome" where
  "start_from rt i wp =
     (if i < maxWorkers wp
      then (if can_start rt i then start_from rt (i + 1) (wp\<lparr>wg := wg wp + 1\<rparr>)
            else Fatal ''runtime: out of memory'')
      else Returns wp)"
  by pat_completeness auto
termination
  by (relation "measure (\<lambda>(rt, i, wp). nat (maxWorkers wp - i))") auto

declare start_from.simps [simp del]

definition start :: "Runtime \<Rightarrow> 'j WorkerPool \<Rightarrow> 'j WorkerPool outcome" where
  "start rt wp = start_from rt 0 wp"

definition NewWorkerPool :: "Runtime \<Rightarrow> int \<Rightarrow> 'j WorkerPool outcome" where
  "NewWorkerPool rt maxWorkers0 =
     (let maxWorkers = (if maxWorkers0 \<le> 0 then 10 else maxWorkers0)
      in case make_chan rt (int64 (maxWorkers * 2)) of
           Returns q \<Rightarrow> start rt \<lparr>jobQueue = q, maxWorkers = maxWorkers, wg = 0\<rparr>
         | Panics m \<Rightarrow> Panics m
         | Fatal m \<Rightarrow> Fatal m
         | Blocks \<Rightarrow> Blocks)"


text \<open>
  A 64-bit Linux, where \<open>maxAlloc\<close> is \<open>2\<^sup>4\<^sup>8\<close>, with a channel's header of 96 bytes and
  with memory to spare for whatever \<^verbatim>\<open>makechan\<close> admits.
\<close>

definition to_spare :: "int \<Rightarrow> bool" where
  "to_spare n = True"

definition linux_amd64 :: Runtime where
  "linux_amd64 =
     \<lparr>maxAlloc = 281474976710656, hchanSize = 96, chan_memory = to_spare, can_start = to_spare\<rparr>"

text \<open>
  \<^verbatim>\<open>Enqueue\<close> has no result. It sends the job on the queue; once the job is in the queue
  the caller waits for \<^verbatim>\<open>done\<close>, which the worker that takes the job closes, and returns.
  \<open>Blocks\<close> is the caller waiting for room in the queue.
\<close>

definition Enqueue :: "'j WorkerPool \<Rightarrow> 'j \<Rightarrow> 'j WorkerPool outcome" where
  "Enqueue wp job =
     (case chan_send (jobQueue wp) job of
        Returns q \<Rightarrow> Returns (wp\<lparr>jobQueue := q\<rparr>)
      | Panics m \<Rightarrow> Panics m
      | Fatal m \<Rightarrow> Fatal m
      | Blocks \<Rightarrow> Blocks)"

text \<open>
  \<^verbatim>\<open>Stop\<close> closes the queue (\<open>Stop_close\<close>, its first statement) and waits for the
  workers, which take what is left in the queue and return.
\<close>

definition Stop_close :: "'j WorkerPool \<Rightarrow> 'j WorkerPool outcome" where
  "Stop_close wp =
     (case chan_close (jobQueue wp) of
        Returns q \<Rightarrow> Returns (wp\<lparr>jobQueue := q\<rparr>)
      | Panics m \<Rightarrow> Panics m
      | Fatal m \<Rightarrow> Fatal m
      | Blocks \<Rightarrow> Blocks)"

definition Stop :: "'j WorkerPool \<Rightarrow> 'j WorkerPool outcome" where
  "Stop wp =
     (case Stop_close wp of
        Returns wp1 \<Rightarrow> Returns (wp1\<lparr>jobQueue := (jobQueue wp1)\<lparr>chan_buf := []\<rparr>, wg := 0\<rparr>)
      | Panics m \<Rightarrow> Panics m
      | Fatal m \<Rightarrow> Fatal m
      | Blocks \<Rightarrow> Blocks)"

text \<open>
  The pool \<^verbatim>\<open>NewWorkerPool(1)\<close> makes on that Linux, the same pool when \<^verbatim>\<open>Stop()\<close> has closed the queue,
  and when \<^verbatim>\<open>Stop()\<close> has returned.
\<close>

definition example_pool :: "unit WorkerPool" where
  "example_pool =
     \<lparr>jobQueue = \<lparr>chan_cap = 2, chan_buf = [], chan_closed = False\<rparr>,
      maxWorkers = 1, wg = 1\<rparr>"

definition closing_pool :: "unit WorkerPool" where
  "closing_pool =
     \<lparr>jobQueue = \<lparr>chan_cap = 2, chan_buf = [], chan_closed = True\<rparr>,
      maxWorkers = 1, wg = 1\<rparr>"

definition stopped_pool :: "unit WorkerPool" where
  "stopped_pool =
     \<lparr>jobQueue = \<lparr>chan_cap = 2, chan_buf = [], chan_closed = True\<rparr>,
      maxWorkers = 1, wg = 0\<rparr>"

section \<open>Clearing the cache\<close>

text \<open>
  C8. After \<^verbatim>\<open>Clear()\<close> on any cache state, \<^verbatim>\<open>Size()\<close> is 0 and every key is absent
  (the map has no entry for it, and a \<^verbatim>\<open>Get\<close> at any time reports it not found), while
  the \<^verbatim>\<open>Hits\<close>, \<^verbatim>\<open>Misses\<close> and \<^verbatim>\<open>Evictions\<close> that \<^verbatim>\<open>Stats()\<close> reports are the ones from
  immediately before the clear.
\<close>

theorem Clear_empties_and_keeps_stats:
  "LRUCache_Size (Clear c) = 0
   \<and> items (Clear c) key = None
   \<and> fst (Get (Clear c) key now) = None
   \<and> Stats_Size (Stats (Clear c)) = 0
   \<and> Hits (Stats (Clear c)) = Hits (Stats c)
   \<and> Misses (Stats (Clear c)) = Misses (Stats c)
   \<and> Evictions (Stats (Clear c)) = Evictions (Stats c)"
  by (simp add: Clear_def LRUCache_Size_def Get_def Get_probe_def Get_finish_def
      Stats_def Let_def)

section \<open>Facts about the cache\<close>

lemma evictOldest_length:
  "evictionList c \<noteq> [] \<Longrightarrow>
   Suc (length (evictionList (snd (evictOldest c)))) = length (evictionList c)"
  by (simp add: evictOldest_def Back_def evictElement_def list_Remove_def Let_def length_remove1)

lemma evictOldest_capacity: "capacity (snd (evictOldest c)) = capacity c"
  by (simp add: evictOldest_def Back_def evictElement_def Let_def)

lemma evict_loop_rule:
  assumes "0 \<le> capacity c" and "P c"
    and "\<And>d. P d \<Longrightarrow> evictionList d \<noteq> [] \<Longrightarrow> P (snd (evictOldest d))"
  shows "\<exists>c'. evict_loop c = Some c' \<and> P c' \<and> capacity c' = capacity c
           \<and> int (length (evictionList c')) \<le> capacity c"
  using assms(1,2)
proof (induction "length (evictionList c)" arbitrary: c)
  case 0
  then show ?case by (subst evict_loop.simps) simp
next
  case (Suc n)
  show ?case
  proof (cases "int (length (evictionList c)) > capacity c")
    case False
    with Suc.prems show ?thesis by (subst evict_loop.simps) simp
  next
    case True
    let ?d = "snd (evictOldest c)"
    from Suc.hyps(2) have ne: "evictionList c \<noteq> []" by auto
    from evictOldest_length[OF ne] Suc.hyps(2) have n: "n = length (evictionList ?d)" by simp
    have "\<exists>c'. evict_loop ?d = Some c' \<and> P c' \<and> capacity c' = capacity ?d
           \<and> int (length (evictionList c')) \<le> capacity ?d"
      by (rule Suc.hyps(1)[OF n]) (use Suc.prems assms(3) ne in \<open>simp_all add: evictOldest_capacity\<close>)
    with True show ?thesis
      by (subst evict_loop.simps) (simp add: evictOldest_capacity)
  qed
qed

lemma evict_loop_negative:
  assumes "evict_loop c = Some c'"
  shows "0 \<le> capacity c"
proof (rule evict_loop.raw_induct[where P = "\<lambda>d d'. 0 \<le> capacity d", OF _ assms])
  fix f d d'
  assume "\<And>x y. f x = Some y \<Longrightarrow> 0 \<le> capacity x"
    and "(if capacity d < int (length (evictionList d)) then f (snd (evictOldest d)) else Some d) = Some d'"
  then show "0 \<le> capacity d"
    by (fastforce simp: evictOldest_capacity split: if_splits)
qed

lemma sorted_wrt_remove1: "sorted_wrt P xs \<Longrightarrow> sorted_wrt P (remove1 x xs)"
  by (induction xs) (auto dest: notin_set_remove1)

lemma wf_distinct: "cache_wf c \<Longrightarrow> distinct (evictionList c)"
  by (simp add: cache_wf_def)

lemma wf_item: "cache_wf c \<Longrightarrow> e \<in> set (evictionList c) \<Longrightarrow> items c (Key (elems c e)) = Some e"
  by (simp add: cache_wf_def)

lemma wf_fresh: "cache_wf c \<Longrightarrow> e \<in> set (evictionList c) \<Longrightarrow> e < nextElem c"
  by (simp add: cache_wf_def)

lemma wf_linked: "cache_wf c \<Longrightarrow> items c k = Some e \<Longrightarrow> e \<in> set (evictionList c)"
  by (simp add: cache_wf_def)

lemma wf_key: "cache_wf c \<Longrightarrow> items c k = Some e \<Longrightarrow> Key (elems c e) = k"
  by (simp add: cache_wf_def)

lemma wfI:
  assumes "distinct (evictionList c)"
    and "\<And>e. e \<in> set (evictionList c) \<Longrightarrow> items c (Key (elems c e)) = Some e"
    and "\<And>e. e \<in> set (evictionList c) \<Longrightarrow> e < nextElem c"
    and "\<And>k e. items c k = Some e \<Longrightarrow> e \<in> set (evictionList c)"
    and "\<And>k e. items c k = Some e \<Longrightarrow> Key (elems c e) = k"
  shows "cache_wf c"
  using assms unfolding cache_wf_def by blast

lemma wf_key_inj:
  assumes "cache_wf c" and "a \<in> set (evictionList c)" and "b \<in> set (evictionList c)"
    and "Key (elems c a) = Key (elems c b)"
  shows "a = b"
proof -
  have "Some a = items c (Key (elems c a))" using wf_item[OF assms(1,2)] by simp
  also have "\<dots> = items c (Key (elems c b))" by (simp only: assms(4))
  also have "\<dots> = Some b" using wf_item[OF assms(1,3)] by simp
  finally show ?thesis by simp
qed

lemma evictElement_fields:
  "evictionList (snd (evictElement c e)) = remove1 e (evictionList c)"
  "items (snd (evictElement c e)) = (items c)(Key (elems c e) := None)"
  "elems (snd (evictElement c e)) = elems c"
  "nextElem (snd (evictElement c e)) = nextElem c"
  "capacity (snd (evictElement c e)) = capacity c"
  by (simp_all add: evictElement_def list_Remove_def Let_def remove1_idem)

lemma wf_evictElement:
  assumes "cache_wf c" and "e \<in> set (evictionList c)"
  shows "cache_wf (snd (evictElement c e))"
proof (rule wfI)
  let ?d = "snd (evictElement c e)"
  note f = evictElement_fields[of c e]
  note d = wf_distinct[OF assms(1)]
  show "distinct (evictionList ?d)" using d by (simp add: f)
  { fix a assume a: "a \<in> set (evictionList ?d)"
    then have ac: "a \<in> set (evictionList c)" and ne: "a \<noteq> e" using d by (auto simp: f)
    then have "Key (elems c a) \<noteq> Key (elems c e)" using wf_key_inj[OF assms(1) ac assms(2)] by blast
    then show "items ?d (Key (elems ?d a)) = Some a" using wf_item[OF assms(1) ac] by (simp add: f)
    show "a < nextElem ?d" using wf_fresh[OF assms(1) ac] by (simp add: f) }
  { fix k a assume "items ?d k = Some a"
    then have k: "k \<noteq> Key (elems c e)" and ia: "items c k = Some a"
      by (auto simp: f split: if_splits)
    note ac = wf_linked[OF assms(1) ia] and ka = wf_key[OF assms(1) ia]
    from ka k have "a \<noteq> e" by auto
    with ac d show "a \<in> set (evictionList ?d)" by (simp add: f)
    from ka show "Key (elems ?d a) = k" by (simp add: f) }
qed

lemma by_recency_evictElement:
  "by_recency c tr \<Longrightarrow> by_recency (snd (evictElement c e)) tr"
  by (simp add: by_recency_def evictElement_fields sorted_wrt_remove1)

lemma wf_evictOldest: "cache_wf c \<Longrightarrow> cache_wf (snd (evictOldest c))"
  by (auto simp: evictOldest_def Back_def intro: wf_evictElement)

lemma by_recency_evictOldest: "by_recency c tr \<Longrightarrow> by_recency (snd (evictOldest c)) tr"
  by (auto simp: evictOldest_def Back_def intro: by_recency_evictElement)

lemma by_recency_touch:
  assumes s: "sorted_wrt (\<lambda>a b. age tr (f a) < age tr (f b)) l"
    and o: "\<And>a. a \<in> set l \<Longrightarrow> g a = f a \<and> f a \<noteq> k" and "g e = k"
  shows "sorted_wrt (\<lambda>a b. age (k # tr) (g a) < age (k # tr) (g b)) (e # l)"
proof -
  have old: "age (k # tr) (g a) = Suc (age tr (f a))" if "a \<in> set l" for a
  proof -
    from o[OF that] have "g a = f a" and "k \<noteq> f a" by blast+
    then show ?thesis by simp
  qed
  have "sorted_wrt (\<lambda>a b. age (k # tr) (g a) < age (k # tr) (g b)) l"
  proof (rule sorted_wrt_mono_rel[OF _ s])
    fix a b assume a: "a \<in> set l" and b: "b \<in> set l"
      and lt: "age tr (f a) < age tr (f b)"
    show "age (k # tr) (g a) < age (k # tr) (g b)"
      unfolding old[OF a] old[OF b] using lt by simp
  qed
  moreover have "age (k # tr) (g e) < age (k # tr) (g a)" if "a \<in> set l" for a
    unfolding old[OF that] by (simp add: assms(3))
  ultimately show ?thesis by simp
qed

lemma Set_existing_eq:
  "items c key = Some e \<Longrightarrow>
   Set c key val ttl now =
     Some (False,
       c\<lparr>totalSize := totalSize c - Size (elems c e) + int (length val),
         elems := (elems c)(e := \<lparr>Key = key, Value = val, Size = int (length val),
           CreatedAt = now, ExpiresAt = (if ttl > 0 then Some (now + ttl) else None)\<rparr>),
         evictionList := MoveToFront (evictionList c) e\<rparr>)"
  by (simp add: Set_def Let_def)

lemma Set_existing:
  assumes "items c key = Some e" and "e \<in> set (evictionList c)"
    and "Set c key val ttl now = Some (b, c')"
  shows "evictionList c' = e # remove1 e (evictionList c)"
    and "elems c' = (elems c)(e := \<lparr>Key = key, Value = val, Size = int (length val),
           CreatedAt = now, ExpiresAt = (if ttl > 0 then Some (now + ttl) else None)\<rparr>)"
    and "items c' = items c" and "nextElem c' = nextElem c" and "capacity c' = capacity c"
    and "b = False"
proof -
  from assms(3) have c': "c' = c\<lparr>totalSize := totalSize c - Size (elems c e) + int (length val),
         elems := (elems c)(e := \<lparr>Key = key, Value = val, Size = int (length val),
           CreatedAt = now, ExpiresAt = (if ttl > 0 then Some (now + ttl) else None)\<rparr>),
         evictionList := MoveToFront (evictionList c) e\<rparr>" and b: "b = False"
    unfolding Set_existing_eq[OF assms(1)] by simp_all
  show "evictionList c' = e # remove1 e (evictionList c)" using assms(2) by (simp add: c' MoveToFront_def)
  show "elems c' = (elems c)(e := \<lparr>Key = key, Value = val, Size = int (length val),
           CreatedAt = now, ExpiresAt = (if ttl > 0 then Some (now + ttl) else None)\<rparr>)"
    by (simp add: c')
  show "items c' = items c" "nextElem c' = nextElem c" "capacity c' = capacity c" by (simp_all add: c')
  show "b = False" by (rule b)
qed

lemma Set_inv_existing:
  assumes "cache_wf c" and "by_recency c tr" and "Set c key val ttl now = Some (b, c')"
    and Some: "items c key = Some e"
  shows "cache_wf c' \<and> by_recency c' (key # tr)"
proof -
  note e = wf_linked[OF assms(1) Some] and ke = wf_key[OF assms(1) Some]
  note l = Set_existing(1)[OF Some e assms(3)] and h = Set_existing(2)[OF Some e assms(3)]
    and i = Set_existing(3)[OF Some e assms(3)] and n = Set_existing(4)[OF Some e assms(3)]
  note d = wf_distinct[OF assms(1)]
  have o: "Key (elems c' a) = Key (elems c a) \<and> Key (elems c a) \<noteq> key"
    if "a \<in> set (remove1 e (evictionList c))" for a
  proof
    from that d have a: "a \<in> set (evictionList c)" and ne: "a \<noteq> e" by simp_all
    show "Key (elems c' a) = Key (elems c a)" using ne by (simp add: h)
    show "Key (elems c a) \<noteq> key" using wf_key_inj[OF assms(1) a e] ne ke by auto
  qed
  have w: "cache_wf c'"
  proof (rule wfI)
    show "distinct (evictionList c')" using d e by (simp add: l)
    { fix a assume "a \<in> set (evictionList c')"
      then have a: "a \<in> set (evictionList c)" using e d by (auto simp: l)
      show "a < nextElem c'" using wf_fresh[OF assms(1) a] by (simp add: n)
      show "items c' (Key (elems c' a)) = Some a"
      proof (cases "a = e")
        case True then show ?thesis using Some by (simp add: h i)
      next
        case False then show ?thesis using wf_item[OF assms(1) a] by (simp add: h i)
      qed }
    { fix k a assume "items c' k = Some a"
      then have ia: "items c k = Some a" by (simp add: i)
      note a = wf_linked[OF assms(1) ia] and ka = wf_key[OF assms(1) ia]
      show "a \<in> set (evictionList c')" using a e d by (auto simp: l)
      show "Key (elems c' a) = k"
      proof (cases "a = e")
        case True then show ?thesis using ka ke by (simp add: h)
      next
        case False then show ?thesis using ka by (simp add: h)
      qed }
  qed
  have "by_recency c' (key # tr)"
    unfolding by_recency_def l
  proof (rule by_recency_touch[OF sorted_wrt_remove1[OF assms(2)[unfolded by_recency_def]] o])
    show "Key (elems c' e) = key" by (simp add: h)
  qed
  with w show ?thesis by simp
qed


lemma Set_new_eq:
  "items c key = None \<Longrightarrow>
   Set c key val ttl now = map_option (Pair True) (evict_loop (pushed c key val ttl now))"
  by (simp add: Set_def PushFront_def pushed_def Let_def)

lemma pushed_old:
  assumes "cache_wf c" and new: "items c key = None" and "a \<in> set (evictionList c)"
  shows "a \<noteq> nextElem c \<and> Key (elems c a) \<noteq> key"
  using wf_fresh[OF assms(1,3)] wf_item[OF assms(1,3)] new by auto

lemma pushed_wf:
  assumes "cache_wf c" and new: "items c key = None"
  shows "cache_wf (pushed c key val ttl now)"
proof (rule wfI)
  let ?d = "pushed c key val ttl now"
  let ?n = "nextElem c"
  have l: "evictionList ?d = ?n # evictionList c" and i: "items ?d = (items c)(key \<mapsto> ?n)"
    and n: "nextElem ?d = Suc ?n" and hn: "Key (elems ?d ?n) = key"
    and h: "\<And>a. a \<noteq> ?n \<Longrightarrow> elems ?d a = elems c a"
    by (simp_all add: pushed_def)
  note old = pushed_old[OF assms]
  show "distinct (evictionList ?d)" using old wf_distinct[OF assms(1)] by (auto simp: l)
  { fix a assume a: "a \<in> set (evictionList ?d)"
    show "a < nextElem ?d" using a wf_fresh[OF assms(1)] by (auto simp: l n less_Suc_eq)
    show "items ?d (Key (elems ?d a)) = Some a"
    proof (cases "a = ?n")
      case True then show ?thesis by (simp add: hn i)
    next
      case False
      with a have "a \<in> set (evictionList c)" by (simp add: l)
      then show ?thesis using old wf_item[OF assms(1)] False by (simp add: h i)
    qed }
  { fix k a assume ia: "items ?d k = Some a"
    show "a \<in> set (evictionList ?d)" using ia wf_linked[OF assms(1)]
      by (auto simp: i l split: if_splits)
    show "Key (elems ?d a) = k"
    proof (cases "k = key")
      case True then show ?thesis using ia by (auto simp: i hn)
    next
      case False
      with ia have ic: "items c k = Some a" by (simp add: i)
      from old[OF wf_linked[OF assms(1) ic]] have "a \<noteq> ?n" by simp
      then show ?thesis using wf_key[OF assms(1) ic] by (simp add: h)
    qed }
qed

lemma pushed_inv:
  assumes "cache_wf c" and "by_recency c tr" and new: "items c key = None"
  shows "cache_wf (pushed c key val ttl now) \<and> by_recency (pushed c key val ttl now) (key # tr)"
proof -
  let ?d = "pushed c key val ttl now"
  let ?n = "nextElem c"
  have l: "evictionList ?d = ?n # evictionList c" and hn: "Key (elems ?d ?n) = key"
    and h: "\<And>a. a \<noteq> ?n \<Longrightarrow> elems ?d a = elems c a"
    by (simp_all add: pushed_def)
  have "by_recency ?d (key # tr)"
    unfolding by_recency_def l
  proof (rule by_recency_touch[OF assms(2)[unfolded by_recency_def]])
    show "Key (elems ?d ?n) = key" by (rule hn)
    show "Key (elems ?d a) = Key (elems c a) \<and> Key (elems c a) \<noteq> key"
      if "a \<in> set (evictionList c)" for a
      using pushed_old[OF assms(1) new that] by (simp add: h)
  qed
  with pushed_wf[OF assms(1) new] show ?thesis by simp
qed

lemma pushed_capacity: "capacity (pushed c key val ttl now) = capacity c"
  by (simp add: pushed_def)

lemma Set_inv:
  assumes "cache_wf c" and "by_recency c tr" and "Set c key val ttl now = Some (b, c')"
  shows "cache_wf c' \<and> by_recency c' (key # tr)"
proof (cases "items c key")
  case (Some e)
  then show ?thesis by (rule Set_inv_existing[OF assms])
next
  case None
  let ?d = "pushed c key val ttl now"
  from assms(3) have r: "evict_loop ?d = Some c'"
    unfolding Set_new_eq[OF None] by auto
  from evict_loop_negative[OF r] have "0 \<le> capacity ?d" .
  from evict_loop_rule[where P = "\<lambda>d. cache_wf d \<and> by_recency d (key # tr)",
      OF this pushed_inv[OF assms(1,2) None]]
  show ?thesis using r by (auto simp: wf_evictOldest by_recency_evictOldest)
qed

lemma Get_miss_eq:
  "items c key = None \<Longrightarrow> Get c key now = (None, c\<lparr>misses := misses c + 1\<rparr>)"
  by (simp add: Get_def Get_probe_def Get_finish_def)

lemma Get_expired_eq:
  "items c key = Some e \<Longrightarrow> ExpiresAt (elems c e) = Some t \<Longrightarrow> now > t \<Longrightarrow>
   Get c key now = (None, (snd (evictElement c e))\<lparr>misses := misses (snd (evictElement c e)) + 1\<rparr>)"
  by (simp add: Get_def Get_probe_def Get_finish_def Let_def)

lemma Get_hit_eq:
  "items c key = Some e \<Longrightarrow> ExpiresAt (elems c e) = None \<or> now \<le> the (ExpiresAt (elems c e)) \<Longrightarrow>
   Get c key now = (Some (elems c e),
      c\<lparr>evictionList := MoveToFront (evictionList c) e, hits := hits c + 1\<rparr>)"
  by (auto simp: Get_def Get_probe_def Get_finish_def Let_def)

lemma cache_wf_counters [simp]:
  "cache_wf (c\<lparr>misses := m\<rparr>) = cache_wf c" "cache_wf (c\<lparr>hits := m\<rparr>) = cache_wf c"
  by (simp_all add: cache_wf_def)

lemma by_recency_counters [simp]:
  "by_recency (c\<lparr>misses := m\<rparr>) tr = by_recency c tr"
  "by_recency (c\<lparr>hits := m\<rparr>) tr = by_recency c tr"
  by (simp_all add: by_recency_def)

lemma MoveToFront_inv:
  assumes "cache_wf c" and "by_recency c tr" and i: "items c key = Some e"
  shows "cache_wf (c\<lparr>evictionList := MoveToFront (evictionList c) e\<rparr>)
       \<and> by_recency (c\<lparr>evictionList := MoveToFront (evictionList c) e\<rparr>) (key # tr)"
proof -
  note e = wf_linked[OF assms(1) i] and ke = wf_key[OF assms(1) i]
  note d = wf_distinct[OF assms(1)]
  let ?d = "c\<lparr>evictionList := MoveToFront (evictionList c) e\<rparr>"
  have l: "evictionList ?d = e # remove1 e (evictionList c)" using e by (simp add: MoveToFront_def)
  have s: "set (evictionList ?d) = set (evictionList c)" using e d by (auto simp: l)
  have w: "cache_wf ?d"
  proof (rule wfI)
    show "distinct (evictionList ?d)" using d by (simp add: l)
    show "items ?d (Key (elems ?d a)) = Some a" if "a \<in> set (evictionList ?d)" for a
      using that wf_item[OF assms(1), of a] unfolding s by simp
    show "a < nextElem ?d" if "a \<in> set (evictionList ?d)" for a
      using that wf_fresh[OF assms(1), of a] unfolding s by simp
    show "a \<in> set (evictionList ?d)" if "items ?d k = Some a" for k a
      using that wf_linked[OF assms(1), of k a] unfolding s by simp
    show "Key (elems ?d a) = k" if "items ?d k = Some a" for k a
      using that wf_key[OF assms(1), of k a] by simp
  qed
  have "by_recency ?d (key # tr)"
    unfolding by_recency_def l
  proof (rule by_recency_touch[OF sorted_wrt_remove1[OF assms(2)[unfolded by_recency_def]]])
    show "Key (elems ?d e) = key" using ke by simp
    show "Key (elems ?d a) = Key (elems c a) \<and> Key (elems c a) \<noteq> key"
      if "a \<in> set (remove1 e (evictionList c))" for a
    proof -
      from that d have a: "a \<in> set (evictionList c)" and ne: "a \<noteq> e" by simp_all
      show ?thesis using wf_key_inj[OF assms(1) a e] ne ke by auto
    qed
  qed
  with w show ?thesis by simp
qed

lemma Get_inv:
  assumes "cache_wf c" and "by_recency c tr"
  shows "cache_wf (snd (Get c key now))
       \<and> by_recency (snd (Get c key now)) (if fst (Get c key now) \<noteq> None then key # tr else tr)"
proof (cases "items c key")
  case None
  show ?thesis unfolding Get_miss_eq[OF None] using assms by simp
next
  case (Some e)
  show ?thesis
  proof (cases "ExpiresAt (elems c e) = None \<or> now \<le> the (ExpiresAt (elems c e))")
    case True
    show ?thesis unfolding Get_hit_eq[OF Some True]
      using MoveToFront_inv[OF assms Some] by simp
  next
    case False
    then obtain t where t: "ExpiresAt (elems c e) = Some t" "now > t" by auto
    show ?thesis unfolding Get_expired_eq[OF Some t]
      using wf_evictElement[OF assms(1) wf_linked[OF assms(1) Some]]
        by_recency_evictElement[OF assms(2), of e] by simp
  qed
qed

lemma Remove_inv:
  assumes "cache_wf c" and "by_recency c tr"
  shows "cache_wf (snd (Remove c key)) \<and> by_recency (snd (Remove c key)) tr"
proof (cases "items c key")
  case None
  then show ?thesis using assms by (simp add: Remove_def)
next
  case (Some e)
  then show ?thesis
    using wf_evictElement[OF assms(1) wf_linked[OF assms(1) Some]]
      by_recency_evictElement[OF assms(2), of e] by (simp add: Remove_def)
qed

lemma Clear_inv: "cache_wf (Clear c) \<and> by_recency (Clear c) tr"
  by (simp add: Clear_def cache_wf_def by_recency_def)

lemma New_inv: "cache_wf (NewLRUCache C) \<and> by_recency (NewLRUCache C) []"
  by (simp add: NewLRUCache_def cache_wf_def by_recency_def)

lemma run_inv:
  assumes "cache_wf c" and "by_recency c tr" and "run c tr ops = Some (c', tr')"
  shows "cache_wf c' \<and> by_recency c' tr'"
  using assms
proof (induction ops arbitrary: c tr)
  case Nil
  then show ?case by simp
next
  case (Cons x ops)
  from Cons.prems(3) obtain d where d: "apply_op c x = Some d"
    and r: "run d (touch c x tr) ops = Some (c', tr')"
    by (auto split: option.splits)
  have "cache_wf d \<and> by_recency d (touch c x tr)"
  proof (cases x)
    case (OpSet key val ttl now)
    with d obtain b where "Set c key val ttl now = Some (b, d)" by (auto simp: apply_op_def)
    from Set_inv[OF Cons.prems(1,2) this] show ?thesis by (simp add: OpSet touch_def)
  next
    case (OpGet key now)
    with d have "d = snd (Get c key now)" by (simp add: apply_op_def)
    with Get_inv[OF Cons.prems(1,2), of key now] show ?thesis by (simp add: OpGet touch_def)
  next
    case (OpRemove key)
    with d have "d = snd (Remove c key)" by (simp add: apply_op_def)
    with Remove_inv[OF Cons.prems(1,2), of key] show ?thesis by (simp add: OpRemove touch_def)
  next
    case OpClear
    with d have "d = Clear c" by (simp add: apply_op_def)
    with Clear_inv[of c tr] show ?thesis by (simp add: OpClear touch_def)
  qed
  then show ?case using Cons.IH r by blast
qed


section \<open>The size never exceeds the capacity\<close>

lemma evictElement_length:
  "length (evictionList (snd (evictElement c e))) \<le> length (evictionList c)"
  by (simp add: evictElement_fields length_remove1)

lemma MoveToFront_length: "length (MoveToFront l e) = length l"
  by (auto simp: MoveToFront_def length_remove1 intro: Suc_pred length_pos_if_in_set)

lemma apply_op_bounded:
  assumes "0 \<le> capacity c" and "int (length (evictionList c)) \<le> capacity c"
  shows "\<exists>d. apply_op c x = Some d \<and> capacity d = capacity c
           \<and> int (length (evictionList d)) \<le> capacity d"
proof (cases x)
  case (OpSet key val ttl now)
  show ?thesis
  proof (cases "items c key")
    case None
    from evict_loop_rule[where P = "\<lambda>d. True" and c = "pushed c key val ttl now"] assms(1)
    show ?thesis by (auto simp: OpSet apply_op_def Set_new_eq[OF None] pushed_capacity)
  next
    case (Some e)
    show ?thesis using assms
      by (simp add: OpSet apply_op_def Set_existing_eq[OF Some] MoveToFront_length)
  qed
next
  case (OpGet key now)
  show ?thesis
  proof (cases "items c key")
    case None
    show ?thesis using assms by (simp add: OpGet apply_op_def Get_miss_eq[OF None])
  next
    case (Some e)
    show ?thesis
    proof (cases "ExpiresAt (elems c e) = None \<or> now \<le> the (ExpiresAt (elems c e))")
      case True
      show ?thesis using assms
        by (simp add: OpGet apply_op_def Get_hit_eq[OF Some True] MoveToFront_length)
    next
      case False
      then obtain t where t: "ExpiresAt (elems c e) = Some t" "now > t" by auto
      show ?thesis using assms evictElement_length[of c e]
        by (simp add: OpGet apply_op_def Get_expired_eq[OF Some t] evictElement_fields)
    qed
  qed
next
  case (OpRemove key)
  show ?thesis
  proof (cases "items c key")
    case None
    show ?thesis using assms by (simp add: OpRemove apply_op_def Remove_def None)
  next
    case (Some e)
    show ?thesis using assms evictElement_length[of c e]
      by (simp add: OpRemove apply_op_def Remove_def Some evictElement_fields)
  qed
next
  case OpClear
  show ?thesis using assms by (simp add: OpClear apply_op_def Clear_def)
qed

lemma run_bounded:
  assumes "0 \<le> capacity c" and "int (length (evictionList c)) \<le> capacity c"
  shows "\<exists>c' tr'. run c tr ops = Some (c', tr') \<and> capacity c' = capacity c
           \<and> int (length (evictionList c')) \<le> capacity c'"
  using assms
proof (induction ops arbitrary: c tr)
  case Nil
  then show ?case by simp
next
  case (Cons x ops)
  from apply_op_bounded[OF Cons.prems, of x] obtain d where d: "apply_op c x = Some d"
    "capacity d = capacity c" "int (length (evictionList d)) \<le> capacity d" by blast
  from Cons.IH[of d "touch c x tr"] d Cons.prems(1)
  show ?case by auto
qed

lemma Get_of_empty:
  assumes "cache_wf c" and "evictionList c = []"
  shows "fst (Get c key now) = None"
proof (cases "items c key")
  case None
  then show ?thesis by (simp add: Get_miss_eq)
next
  case (Some e)
  from wf_linked[OF assms(1) Some] assms(2) show ?thesis by simp
qed

text \<open>
  C2, amended. On a cache constructed with a capacity \<open>C \<ge> 0\<close>, every sequence of calls
  (of \<^verbatim>\<open>Set\<close>, and of \<^verbatim>\<open>Get\<close>, \<^verbatim>\<open>Remove\<close> and \<^verbatim>\<open>Clear\<close> as well) returns, and
  after each call (after the first \<open>n\<close> calls, for every \<open>n\<close>) \<^verbatim>\<open>Size()\<close> is at most
  \<open>C\<close>. For \<open>C = 0\<close> the cache is a pure sink: after any number of calls \<^verbatim>\<open>Size()\<close>
  is 0 and a \<^verbatim>\<open>Get\<close> of any key, at any time, reports it not found.
\<close>

theorem Size_within_capacity:
  assumes "0 \<le> C"
  shows "\<exists>c tr. run (NewLRUCache C) [] (take n ops) = Some (c, tr)
           \<and> LRUCache_Size c \<le> C
           \<and> (C = 0 \<longrightarrow> LRUCache_Size c = 0 \<and> fst (Get c key now) = None)"
proof -
  have "0 \<le> capacity (NewLRUCache C)"
    and "int (length (evictionList (NewLRUCache C))) \<le> capacity (NewLRUCache C)"
    using assms by (simp_all add: NewLRUCache_def)
  from run_bounded[OF this, of "[]" "take n ops"] obtain c tr
    where r: "run (NewLRUCache C) [] (take n ops) = Some (c, tr)"
      and b: "int (length (evictionList c)) \<le> capacity c"
      and k: "capacity c = capacity (NewLRUCache C)" by blast
  from k have k': "capacity c = C" by (simp add: NewLRUCache_def)
  from run_inv[OF _ _ r] New_inv[of C] have w: "cache_wf c" by blast
  have "fst (Get c key now) = None" if "C = 0"
    using Get_of_empty[OF w] b k' that by simp
  with r b k' show ?thesis by (auto simp: LRUCache_Size_def)
qed

text \<open>The zero-capacity cache of the repository's test: one \<^verbatim>\<open>Set\<close>, then the key is gone.\<close>

theorem Size_within_capacity_witness:
  "(0::int) \<le> 0
   \<and> (\<exists>c tr. run (NewLRUCache 0) [] (take 1 [OpSet ''key'' ''value'' 0 0]) = Some (c, tr)
         \<and> LRUCache_Size c \<le> 0 \<and> LRUCache_Size c = 0 \<and> fst (Get c ''key'' 0) = None)"
  using Size_within_capacity[of 0 1 "[OpSet ''key'' ''value'' 0 0]" "''key''" 0] by simp

text \<open>
  The claim as stated, for every capacity, fails for a negative one: the first \<^verbatim>\<open>Set\<close> of
  a cache constructed with capacity \<open>-1\<close> empties the list and then keeps calling
  \<^verbatim>\<open>evictOldest\<close> on the empty list, since \<open>0 > -1\<close>; it never returns, and no size is at
  most \<open>-1\<close>.
\<close>

theorem Set_negative_capacity_counterexample:
  "Set (NewLRUCache (- 1)) ''a'' [] 0 0 = None
   \<and> run (NewLRUCache (- 1)) [] [OpSet ''a'' [] 0 0] = None
   \<and> \<not> LRUCache_Size (NewLRUCache (- 1)) \<le> - 1"
proof -
  have "evict_loop d = None" if "capacity d < 0" for d
    using evict_loop_negative[of d] that by (cases "evict_loop d") auto
  then have "Set (NewLRUCache (- 1)) ''a'' [] 0 0 = None"
    by (simp add: Set_def NewLRUCache_def PushFront_def Let_def)
  then show ?thesis
    by (simp add: apply_op_def) (simp add: LRUCache_Size_def NewLRUCache_def)
qed

section \<open>Eviction of the least recently touched key\<close>

lemma Set_full_eq:
  assumes "items c k = None" and "evictionList c \<noteq> []"
    and "int (length (evictionList c)) = capacity c"
  shows "Set c k v ttl now =
           Some (True, snd (evictElement (pushed c k v ttl now) (last (evictionList c))))"
proof -
  let ?d = "pushed c k v ttl now"
  let ?e = "last (evictionList c)"
  have l: "evictionList ?d = nextElem c # evictionList c" and cap: "capacity ?d = capacity c"
    by (simp_all add: pushed_def)
  have o: "evictOldest ?d = evictElement ?d ?e"
    using assms(2) by (simp add: evictOldest_def Back_def l)
  have "?e \<in> set (evictionList ?d)" using assms(2) by (simp add: l)
  then have "length (remove1 ?e (evictionList ?d)) = length (evictionList ?d) - 1"
    by (simp only: length_remove1 if_True)
  then have len: "int (length (evictionList (snd (evictElement ?d ?e)))) = capacity c"
    using assms(3) by (simp add: evictElement_fields(1) l)
  have "evict_loop (snd (evictElement ?d ?e)) = Some (snd (evictElement ?d ?e))"
    by (subst evict_loop.simps) (simp add: len evictElement_fields(5) cap)
  then have "evict_loop ?d = Some (snd (evictElement ?d ?e))"
    using assms(3) by (subst evict_loop.simps) (simp add: l cap o)
  then show ?thesis by (simp add: Set_new_eq[OF assms(1)])
qed

lemma scenario_run:
  "\<exists>c tr. run (NewLRUCache 3) []
       [OpSet ''a'' va 0 t1, OpSet ''b'' vb 0 t2, OpSet ''c'' vc 0 t3, OpGet ''a'' t4,
        OpSet ''d'' vd 0 t5] = Some (c, tr)
     \<and> items c ''b'' = None \<and> fst (Get c ''b'' t6) = None
     \<and> items c ''a'' \<noteq> None \<and> fst (Get c ''a'' t6) \<noteq> None
     \<and> items c ''c'' \<noteq> None \<and> fst (Get c ''c'' t6) \<noteq> None
     \<and> items c ''d'' \<noteq> None \<and> fst (Get c ''d'' t6) \<noteq> None"
  by (simp add: apply_op_def touch_def NewLRUCache_def Set_def Get_def Get_probe_def
      Get_finish_def PushFront_def MoveToFront_def Let_def evict_loop.simps evictOldest_def
      evictElement_def Back_def list_Remove_def)

text \<open>
  C3. Take any cache state reached from a new cache by a sequence of calls, \<open>tr\<close> being the
  keys touched on the way (a key is touched when it is inserted or updated by \<^verbatim>\<open>Set\<close> or
  found by \<^verbatim>\<open>Get\<close>). If the cache is at capacity and has an occupant, then \<^verbatim>\<open>Set\<close> of a
  key \<open>k\<close> that is not in it returns \<open>True\<close> and evicts exactly one occupant \<open>e\<close>: \<open>e\<close> is
  absent afterwards, \<open>k\<close> and every other occupant are present, and every other occupant
  was touched more recently than \<open>e\<close>. In particular, in a cache of capacity 3, after
  \<^verbatim>\<open>Set(a)\<close>, \<^verbatim>\<open>Set(b)\<close>, \<^verbatim>\<open>Set(c)\<close>, \<^verbatim>\<open>Get(a)\<close>, \<^verbatim>\<open>Set(d)\<close> (entries that do not expire,
  any values, any clock readings) the key \<open>b\<close> is absent and \<open>a\<close>, \<open>c\<close>, \<open>d\<close> are present, in
  the map and for \<^verbatim>\<open>Get\<close>.
\<close>

theorem Set_at_capacity_evicts_least_recently_touched:
  assumes r: "run (NewLRUCache C) [] ops = Some (c, tr)"
    and full: "LRUCache_Size c = Capacity c" and ne: "evictionList c \<noteq> []"
    and new: "items c k = None"
  shows "(\<exists>c' e. Set c k v ttl now = Some (True, c')
           \<and> items c e \<noteq> None \<and> items c' e = None \<and> items c' k \<noteq> None
           \<and> (\<forall>j. j \<noteq> e \<and> items c j \<noteq> None \<longrightarrow> items c' j \<noteq> None \<and> age tr j < age tr e))
       \<and> (\<exists>c5 tr5. run (NewLRUCache 3) []
             [OpSet ''a'' va 0 t1, OpSet ''b'' vb 0 t2, OpSet ''c'' vc 0 t3, OpGet ''a'' t4,
              OpSet ''d'' vd 0 t5] = Some (c5, tr5)
           \<and> items c5 ''b'' = None \<and> fst (Get c5 ''b'' t6) = None
           \<and> items c5 ''a'' \<noteq> None \<and> fst (Get c5 ''a'' t6) \<noteq> None
           \<and> items c5 ''c'' \<noteq> None \<and> fst (Get c5 ''c'' t6) \<noteq> None
           \<and> items c5 ''d'' \<noteq> None \<and> fst (Get c5 ''d'' t6) \<noteq> None)"
proof -
  from run_inv[OF _ _ r] New_inv[of C] have w: "cache_wf c" and s: "by_recency c tr" by blast+
  let ?l = "evictionList c"
  let ?a = "last ?l"
  let ?d = "pushed c k v ttl now"
  let ?e = "Key (elems c ?a)"
  let ?c' = "snd (evictElement ?d ?a)"
  from ne have a: "?a \<in> set ?l" by simp
  from wf_fresh[OF w a] have h: "elems ?d ?a = elems c ?a" by (simp add: pushed_def)
  have i: "items ?c' = ((items c)(k \<mapsto> nextElem c))(?e := None)"
    by (simp add: evictElement_fields h) (simp add: pushed_def)
  from full have "int (length ?l) = capacity c" by (simp add: LRUCache_Size_def Capacity_def)
  from Set_full_eq[OF new ne this] have S: "Set c k v ttl now = Some (True, ?c')" .
  note ie = wf_item[OF w a]
  with new have ek: "?e \<noteq> k" by auto
  have rest: "items ?c' j \<noteq> None \<and> age tr j < age tr ?e" if "j \<noteq> ?e" "items c j \<noteq> None" for j
  proof
    show "items ?c' j \<noteq> None" using that new by (auto simp: i)
    from that(2) obtain b where b: "items c j = Some b" by auto
    note bl = wf_linked[OF w b] and kb = wf_key[OF w b]
    with that(1) have "b \<noteq> ?a" by auto
    with bl ne have "b \<in> set (butlast ?l)"
      by (metis append_butlast_last_id insert_iff list.set(2) set_append
          empty_iff empty_set Un_iff)
    moreover from s ne have "sorted_wrt (\<lambda>a b. age tr (Key (elems c a)) < age tr (Key (elems c b)))
        (butlast ?l @ [?a])" by (simp add: by_recency_def)
    ultimately show "age tr j < age tr ?e" using kb by (auto simp: sorted_wrt_append)
  qed
  have general: "\<exists>c' e. Set c k v ttl now = Some (True, c')
           \<and> items c e \<noteq> None \<and> items c' e = None \<and> items c' k \<noteq> None
           \<and> (\<forall>j. j \<noteq> e \<and> items c j \<noteq> None \<longrightarrow> items c' j \<noteq> None \<and> age tr j < age tr e)"
  proof (intro exI conjI allI impI)
    show "Set c k v ttl now = Some (True, ?c')" by (rule S)
    show "items c ?e \<noteq> None" using ie by simp
    show "items ?c' ?e = None" by (simp add: i)
    show "items ?c' k \<noteq> None" using ek by (simp add: i)
    show "items ?c' j \<noteq> None" if "j \<noteq> ?e \<and> items c j \<noteq> None" for j using rest that by blast
    show "age tr j < age tr ?e" if "j \<noteq> ?e \<and> items c j \<noteq> None" for j using rest that by blast
  qed
  show ?thesis by (rule conjI[OF general scenario_run])
qed

text \<open>
  The theorem at the state of the scenario before its last call: the cache of capacity 3
  holds \<open>a\<close>, \<open>c\<close>, \<open>b\<close> in the order of their last touches, and \<open>d\<close> is new.
\<close>

theorem Set_at_capacity_evicts_least_recently_touched_witness:
  "\<exists>c tr. run (NewLRUCache 3) []
       [OpSet ''a'' ''1'' 0 0, OpSet ''b'' ''2'' 0 0, OpSet ''c'' ''3'' 0 0, OpGet ''a'' 0]
         = Some (c, tr)
     \<and> LRUCache_Size c = Capacity c \<and> evictionList c \<noteq> [] \<and> items c ''d'' = None
     \<and> tr = [''a'', ''c'', ''b'', ''a'']
     \<and> (\<exists>c' e. Set c ''d'' ''4'' 0 0 = Some (True, c')
           \<and> items c e \<noteq> None \<and> items c' e = None \<and> items c' ''d'' \<noteq> None
           \<and> (\<forall>j. j \<noteq> e \<and> items c j \<noteq> None \<longrightarrow> items c' j \<noteq> None \<and> age tr j < age tr e))"
proof -
  let ?ops = "[OpSet ''a'' ''1'' 0 0, OpSet ''b'' ''2'' 0 0, OpSet ''c'' ''3'' 0 0, OpGet ''a'' 0]"
  obtain c tr where r: "run (NewLRUCache 3) [] ?ops = Some (c, tr)"
    and f: "LRUCache_Size c = Capacity c" "evictionList c \<noteq> []" "items c ''d'' = None"
      "tr = [''a'', ''c'', ''b'', ''a'']"
    by (simp add: apply_op_def touch_def NewLRUCache_def Set_def Get_def Get_probe_def
      Get_finish_def PushFront_def MoveToFront_def Let_def evict_loop.simps
      LRUCache_Size_def Capacity_def)
  from Set_at_capacity_evicts_least_recently_touched[OF r f(1,2,3), of "''4''" 0 0]
  have "\<exists>c' e. Set c ''d'' ''4'' 0 0 = Some (True, c')
           \<and> items c e \<noteq> None \<and> items c' e = None \<and> items c' ''d'' \<noteq> None
           \<and> (\<forall>j. j \<noteq> e \<and> items c j \<noteq> None \<longrightarrow> items c' j \<noteq> None \<and> age tr j < age tr e)"
    by blast
  with r f show ?thesis by blast
qed

section \<open>Two callers in \<^verbatim>\<open>Get\<close>\<close>

text \<open>
  C9. \<^verbatim>\<open>Get\<close> is not one critical section: it looks the key up under the read lock,
  releases it, and evicts or promotes under a write lock taken later. Two callers that
  both look up the key \<open>a\<close> of an expired entry before either takes the write lock both
  evict it: the entry was counted once in \<open>totalSize\<close> and once as an occupant, and
  afterwards there are two evictions and a \<open>totalSize\<close> of \<open>-1\<close>. Run one after the other,
  the same two calls count one eviction and leave \<open>totalSize\<close> at 0.
\<close>

theorem Get_two_callers_evict_twice:
  "\<exists>c0. Set (NewLRUCache 3) ''a'' ''v'' 1 0 = Some (True, c0)
     \<and> evictions c0 = 0 \<and> totalSize c0 = 1
     \<and> (let p1 = Get_probe c0 ''a'';
             p2 = Get_probe c0 ''a'';
             c1 = snd (Get_finish c0 p1 5);
             c2 = snd (Get_finish c1 p2 5)
         in evictions c2 = 2 \<and> totalSize c2 = - 1 \<and> misses c2 = 2)
     \<and> (let c1 = snd (Get c0 ''a'' 5);
             c2 = snd (Get c1 ''a'' 5)
         in evictions c2 = 1 \<and> totalSize c2 = 0 \<and> misses c2 = 2)"
  by (simp add: NewLRUCache_def Set_def Get_def Get_probe_def Get_finish_def PushFront_def
      Let_def evict_loop.simps evictElement_def list_Remove_def)
section \<open>Evaluation of the library functions\<close>

lemmas eval_strings =
  Split.simps TrimSpace_def TrimLeftSpace.simps TrimRightSpace.simps leading_space_def
  trailing_space_def spaces_def suffix_to_prefix HasPrefix_def HasSuffix_def TrimPrefix_def
  Atoi_def ParseInt10_def decimal_def is_digit_def digit_value_def Contains_def

lemmas eval_headers =
  header_Get_def header_Add_def header_Set_def header_Del_def header_AddAll_def
  header_lookup_def CanonicalMIMEHeaderKey_def validHeaderFieldByte_def to_upper_def
  to_lower_def Let_def

lemmas eval_examples =
  example_env_def example_config_def example_response_def example_request_def
  example_time_Parse_def example_url_Parse_def example_Quote_def example_client_Do_def
  empty_cache_def empty_Get_def empty_Set_def


section \<open>The stored form of a response, there and back\<close>

text \<open>
  C4. For a \<^verbatim>\<open>CachedResponse\<close> with status 200, the header map
  \<^verbatim>\<open>{"Content-Type": ["text/plain"]}\<close> and any body, \<^verbatim>\<open>parseCachedResponse\<close> of what
  \<^verbatim>\<open>serializeResponse\<close> gives succeeds and gives back the same status code, the same header
  map and the same body bytes, whatever the body holds (blank lines included: the bytes
  are cut at the first blank line, which is the one the serializer wrote).
\<close>

theorem serialize_parse_roundtrip:
  "parseCachedResponse
     (serializeResponse
        \<lparr>StatusCode = 200, Header = [(''Content-Type'', [''text/plain''])], Body = body\<rparr>)
   = Inr \<lparr>StatusCode = 200, Header = [(''Content-Type'', [''text/plain''])], Body = body\<rparr>"
  by (simp add: serializeResponse_def parseCachedResponse_def SplitN2_def Itoa_def
      digits_of.simps CRLF_def Split.simps Sscanf_d_def skip_space.simps leading_space_def
      spaces_def ParseInt10_def decimal_def is_digit_def digit_value_def
      header_Add_def header_lookup_def CanonicalMIMEHeaderKey_def
      validHeaderFieldByte_def to_upper_def to_lower_def Let_def)



section \<open>The time to live of a stored response\<close>

lemma scan_directives_eq:
  "scan_directives ds =
     (case List.map_filter
             (\<lambda>d. if prefix ''max-age='' (TrimSpace d) then Atoi (drop 8 (TrimSpace d)) else None)
             ds of
        [] \<Rightarrow> None
      | seconds # _ \<Rightarrow> Some (int64 (seconds * 1000000000)))"
proof -
  have "length ''max-age='' = 8" by simp
  then have d: "drop (length ''max-age='') s = drop 8 s" for s :: string by (simp only:)
  show ?thesis
    by (induction ds)
      (simp_all add: HasPrefix_def TrimPrefix_def Second_def Let_def d
        del: length_Cons list.size split: option.splits)
qed

lemma try_formats_eq:
  "try_formats env fs v =
     (case List.map_filter (\<lambda>f. time_Parse env f v) fs of
        [] \<Rightarrow> None
      | t # _ \<Rightarrow> Some t)"
  by (induction fs) (auto split: option.splits)

lemma max_age_values_empty: "max_age_values [] = []"
  by (simp add: max_age_values_def Split.simps TrimSpace_def
      TrimLeftSpace.simps TrimRightSpace.simps leading_space_def trailing_space_def spaces_def
      suffix_to_prefix)

lemma calculateTTL_derived: "calculateTTL env cfg resp = derived_ttl env cfg resp"
proof (cases "header_Get (RespHeader resp) ''Cache-Control'' = []")
  case True
  then show ?thesis
    by (simp add: calculateTTL_def derived_ttl_def max_age_values_empty expires_times_def
        try_formats_eq Second_def split: list.splits)
next
  case False
  then show ?thesis
    by (simp add: calculateTTL_def derived_ttl_def max_age_values_def scan_directives_eq
        expires_times_def try_formats_eq Second_def split: list.splits)
qed


text \<open>
  C1, amended. \<^verbatim>\<open>calculateTTL\<close> derives the time to live in strict precedence: the value
  of the first \<^verbatim>\<open>max-age=\<close> directive of the upstream's \<^verbatim>\<open>Cache-Control\<close> that parses as
  an integer, in seconds, as a 64-bit count of nanoseconds (the product wraps around);
  else, for an \<^verbatim>\<open>Expires\<close> header that is not empty, the time the first format that
  parses it gives, minus the current time (within the range of a \<^verbatim>\<open>Duration\<close>); else the
  configured default. The time to live that \<^verbatim>\<open>cacheResponse\<close> hands to the cache's
  \<^verbatim>\<open>Set\<close> is this value when it is positive, and the configured default when it is zero
  or negative.
\<close>

theorem stored_ttl_precedence:
  "calculateTTL env cfg resp = derived_ttl env cfg resp
   \<and> cacheResponse_ttl env cfg resp =
       (if 0 < derived_ttl env cfg resp then derived_ttl env cfg resp
        else int64 (CacheTTL cfg * 1000000000))
   \<and> snd (cache_Set ch c key (serializeResponse
        \<lparr>StatusCode = RespStatusCode resp, Header = RespHeader resp, Body = body\<rparr>)
        (cacheResponse_ttl env cfg resp) (clock env))
       = cacheResponse env cfg ch c key resp body"
  by (simp add: calculateTTL_derived cacheResponse_ttl_def cacheResponse_def Second_def Let_def)


text \<open>
  The claim as stated fails where the derived value is not positive. With a default of
  3600 seconds, \<^verbatim>\<open>Cache-Control: max-age=0\<close> is stored with 3600 seconds and not with 0;
  and an \<^verbatim>\<open>Expires\<close> at the Unix epoch, read one microsecond later, derives -1000
  nanoseconds and is stored with 3600 seconds: the entry is not stored already expired.
\<close>

theorem stored_ttl_counterexample:
  "max_age_values ''max-age=0'' = [0]
   \<and> cacheResponse_ttl example_env example_config
        (example_response [(''Cache-Control'', [''max-age=0''])]) = 3600000000000
   \<and> expires_times example_env ''Thu, 01 Jan 1970 00:00:00 GMT'' = [0]
   \<and> Until 0 (clock example_env) = - 1000
   \<and> cacheResponse_ttl example_env example_config
        (example_response [(''Expires'', [''Thu, 01 Jan 1970 00:00:00 GMT''])]) = 3600000000000"
proof (intro conjI)
  show "max_age_values ''max-age=0'' = [0]"
    by (simp add: max_age_values_def eval_strings)
  show "cacheResponse_ttl example_env example_config
        (example_response [(''Cache-Control'', [''max-age=0''])]) = 3600000000000"
    by (simp add: cacheResponse_ttl_def calculateTTL_def eval_strings eval_headers
        eval_examples Second_def int64_def)
  show "expires_times example_env ''Thu, 01 Jan 1970 00:00:00 GMT'' = [0]"
    by (simp add: expires_times_def formats_def RFC1123_def RFC1123Z_def eval_examples)
  show "Until 0 (clock example_env) = - 1000"
    by (simp add: Until_def eval_examples)
  show "cacheResponse_ttl example_env example_config
        (example_response [(''Expires'', [''Thu, 01 Jan 1970 00:00:00 GMT''])]) = 3600000000000"
    by (simp add: cacheResponse_ttl_def calculateTTL_def eval_headers
        eval_examples formats_def RFC1123_def RFC1123Z_def Until_def Second_def int64_def)
qed


section \<open>The domain filter\<close>









section \<open>The status codes of the handler\<close>

lemma cacheLookup_hit:
  assumes "cacheLookup env ch c r = (Some cached, c1)"
  shows "\<exists>key item. fst (cache_Get ch c key (clock env)) = Some item
           \<and> parseCachedResponse (Value item) = Inr cached"
proof -
  from assms obtain item c' where g: "cache_Get ch c (createCacheKey r) (clock env) = (Some item, c')"
    and p: "parseCachedResponse (Value item) = Inr cached"
    by (auto simp: cacheLookup_def split: if_splits prod.splits option.splits sum.splits)
  from g have "fst (cache_Get ch c (createCacheKey r) (clock env)) = Some item" by simp
  with p show ?thesis by blast
qed

lemma resolveTarget_message:
  "resolveTarget env r = Inl e \<Longrightarrow>
   e = HttpError ''Invalid URL format'' 400
   \<or> e = HttpError ''Invalid proxy request. URL must include scheme and host.'' 400"
  by (auto simp: resolveTarget_def Let_def split: if_splits sum.splits)

lemma forwardRequest_status:
  "(case fst (forwardRequest env cfg ch c w r) of
      HttpError msg code \<Rightarrow>
        (code = 500 \<and> (\<exists>err. cloneRequest env r = Inl err
                          \<and> msg = ''Error creating proxy request: '' @ err))
        \<or> (code = 502 \<and> (\<exists>req err. client_Do env req = Inl err
                          \<and> msg = ''Error forwarding request: '' @ err))
    | Written h status body \<Rightarrow>
        (\<exists>req resp. client_Do env req = Inr resp \<and> status = RespStatusCode resp)
    | HeadersOnly h status \<Rightarrow>
        (\<exists>req resp. client_Do env req = Inr resp \<and> status = RespStatusCode resp))"
proof (cases "cloneRequest env r")
  case (Inl err)
  then show ?thesis by (simp add: forwardRequest_def)
next
  case (Inr req)
  show ?thesis
  proof (cases "client_Do env req")
    case (Inl err)
    with Inr show ?thesis by (auto simp: forwardRequest_def)
  next
    case resp: (Inr resp)
    show ?thesis
    proof (cases "RespBody resp")
      case (Inl err)
      with Inr resp show ?thesis by (auto simp: forwardRequest_def Let_def)
    next
      case body: (Inr body)
      with Inr resp show ?thesis by (auto simp: forwardRequest_def Let_def)
    qed
  qed
qed

text \<open>
  C6, amended. Whatever the request, the cache and the upstream, the handler either
  answers with \<^verbatim>\<open>http.Error\<close> and one of four codes: 400 for a target that is missing or
  does not parse, 403 for a domain that is not allowed, 500 when the outbound request
  cannot be built, 502 when the client fails to get the upstream's response; or it
  writes the status of a response: the one the upstream just gave, or, on a cache hit,
  the one recorded in the cache entry it replays.
\<close>

theorem handleRequest_status:
  "(case fst (handleRequest env cfg ch c w r) of
      HttpError msg code \<Rightarrow>
        (code = 400 \<and> (msg = ''Invalid URL format''
            \<or> msg = ''Invalid proxy request. URL must include scheme and host.''))
        \<or> (code = 403 \<and> msg = ''Domain not allowed'')
        \<or> (code = 500 \<and> (\<exists>r' err. cloneRequest env r' = Inl err
                          \<and> msg = ''Error creating proxy request: '' @ err))
        \<or> (code = 502 \<and> (\<exists>req err. client_Do env req = Inl err
                          \<and> msg = ''Error forwarding request: '' @ err))
    | Written h status body \<Rightarrow>
        (\<exists>req resp. client_Do env req = Inr resp \<and> status = RespStatusCode resp)
        \<or> (\<exists>key item cached. fst (cache_Get ch c key (clock env)) = Some item
              \<and> parseCachedResponse (Value item) = Inr cached \<and> status = StatusCode cached)
    | HeadersOnly h status \<Rightarrow>
        (\<exists>req resp. client_Do env req = Inr resp \<and> status = RespStatusCode resp))"
proof (cases "resolveTarget env r")
  case (Inl e)
  then have eq: "fst (handleRequest env cfg ch c w r) = e" by (simp add: handleRequest_def)
  from resolveTarget_message[OF Inl] show ?thesis
    by (elim disjE) (simp_all add: eq)
next
  case (Inr r')
  show ?thesis
  proof (cases "isDomainAllowed cfg (Host (URL r'))")
    case False
    with Inr have eq: "fst (handleRequest env cfg ch c w r) = HttpError ''Domain not allowed'' 403"
      by (simp add: handleRequest_def)
    show ?thesis by (simp add: eq)
  next
    case True
    obtain hit c1 where l: "cacheLookup env ch c r' = (hit, c1)" by (cases "cacheLookup env ch c r'")
    show ?thesis
    proof (cases hit)
      case None
      let ?x = "fst (forwardRequest env cfg ch c1 w r')"
      from Inr True l None have eq: "fst (handleRequest env cfg ch c w r) = ?x"
        by (simp add: handleRequest_def)
      note F = forwardRequest_status[where env = env and cfg = cfg and ch = ch and c = c1
          and w = w and r = r']
      show ?thesis
      proof (cases ?x)
        case (HttpError msg code)
        with F have "(code = 500 \<and> (\<exists>err. cloneRequest env r' = Inl err
                          \<and> msg = ''Error creating proxy request: '' @ err))
            \<or> (code = 502 \<and> (\<exists>req err. client_Do env req = Inl err
                          \<and> msg = ''Error forwarding request: '' @ err))" by simp
        then have "(code = 500 \<and> (\<exists>r' err. cloneRequest env r' = Inl err
                          \<and> msg = ''Error creating proxy request: '' @ err))
            \<or> (code = 502 \<and> (\<exists>req err. client_Do env req = Inl err
                          \<and> msg = ''Error forwarding request: '' @ err))" by blast
        then show ?thesis by (simp only: eq HttpError response.case) blast
      next
        case (Written h status body)
        with F have "\<exists>req resp. client_Do env req = Inr resp \<and> status = RespStatusCode resp"
          by simp
        then show ?thesis by (simp only: eq Written response.case) blast
      next
        case (HeadersOnly h status)
        with F have "\<exists>req resp. client_Do env req = Inr resp \<and> status = RespStatusCode resp"
          by simp
        then show ?thesis by (simp only: eq HeadersOnly response.case)
      qed
    next
      case (Some cached)
      from cacheLookup_hit[OF l[unfolded Some]] obtain key item
        where "fst (cache_Get ch c key (clock env)) = Some item"
          and "parseCachedResponse (Value item) = Inr cached" by blast
      then have "\<exists>key item cached'. fst (cache_Get ch c key (clock env)) = Some item
              \<and> parseCachedResponse (Value item) = Inr cached'
              \<and> StatusCode cached = StatusCode cached'" by blast
      moreover from Inr True l Some
      have eq: "fst (handleRequest env cfg ch c w r)
          = Written (header_Set (header_AddAll w (Header cached)) ''X-Cache'' ''HIT'')
              (StatusCode cached) (Body cached)"
        by (simp add: handleRequest_def)
      ultimately show ?thesis by (simp only: eq response.case) blast
    qed
  qed
qed

text \<open>
  The claim as stated leaves out 500, which the handler writes when
  \<^verbatim>\<open>http.NewRequest\<close> refuses the outbound request: here for a method that is not a
  token, on a host the allow-list permits.
\<close>

theorem handleRequest_status_counterexample:
  "isDomainAllowed example_config ''example.com''
   \<and> \<not> validMethod ''BAD METHOD''
   \<and> status_of (fst (handleRequest example_env example_config empty_cache () []
        (example_request ''BAD METHOD'' ''example.com''))) = 500"
  by (simp add: handleRequest_def resolveTarget_def cacheLookup_def forwardRequest_def
      isDomainAllowed_def HasSuffix_def suffix_to_prefix
      isCacheable_def cacheables_def cloneRequest_def validMethod_def
      validHeaderFieldByte_def eval_examples Let_def)

section \<open>The size of the worker pool\<close>











section \<open>Enqueue after Stop\<close>

text \<open>
  C5, amended. Once \<^verbatim>\<open>Stop()\<close> has closed the job queue, which is the first thing it does,
  every \<^verbatim>\<open>Enqueue\<close> panics with Go's \<^verbatim>\<open>send on closed channel\<close>, at once and whatever
  the queue holds: it does not block, and it does not return (\<^verbatim>\<open>Enqueue\<close> has no result
  in which to return an error). This holds for every pool whose queue is closed, so from
  the moment \<^verbatim>\<open>Stop()\<close> has closed it and after \<^verbatim>\<open>Stop()\<close> has returned.
\<close>

theorem Enqueue_after_Stop:
  "(chan_closed (jobQueue wp) \<longrightarrow> Enqueue wp job = Panics ''send on closed channel'')
   \<and> (Stop_close wp0 = Returns wp1 \<longrightarrow>
        chan_closed (jobQueue wp1) \<and> Enqueue wp1 job = Panics ''send on closed channel'')
   \<and> (Stop wp0 = Returns wp2 \<longrightarrow>
        chan_closed (jobQueue wp2) \<and> Enqueue wp2 job = Panics ''send on closed channel'')"
  by (auto simp: Enqueue_def chan_send_def Stop_def Stop_close_def chan_close_def
      split: if_splits outcome.splits)


text \<open>The pool of one worker, stopped.\<close>

theorem Enqueue_after_Stop_witness:
  "chan_closed (jobQueue stopped_pool)
   \<and> Stop_close example_pool = Returns closing_pool
   \<and> chan_closed (jobQueue closing_pool)
   \<and> Enqueue closing_pool () = Panics ''send on closed channel''
   \<and> Stop example_pool = Returns stopped_pool
   \<and> Enqueue stopped_pool () = Panics ''send on closed channel''"
  using Enqueue_after_Stop[of stopped_pool "()" example_pool closing_pool stopped_pool]
  by (simp add: example_pool_def closing_pool_def stopped_pool_def Stop_def Stop_close_def
      chan_close_def)

text \<open>
  The claim as stated has \<^verbatim>\<open>Enqueue\<close> return an error to its caller. On the pool that
  \<^verbatim>\<open>NewWorkerPool(1)\<close> makes on the 64-bit Linux, after \<^verbatim>\<open>Stop()\<close>, \<^verbatim>\<open>Enqueue\<close> does
  not return: it panics.
\<close>

theorem Enqueue_after_Stop_counterexample:
  "NewWorkerPool linux_amd64 1 = Returns example_pool
   \<and> Stop example_pool = Returns stopped_pool
   \<and> Enqueue stopped_pool () = Panics ''send on closed channel''"
  by (simp add: NewWorkerPool_def make_chan_def int64_def start_def start_from.simps
      linux_amd64_def elem_size_def to_spare_def
      example_pool_def stopped_pool_def Stop_def Stop_close_def chan_close_def
      Enqueue_def chan_send_def)

section \<open>The life of an entry\<close>

lemma evict_loop_guarded:
  assumes "capacity c = C" and "0 \<le> C" and "P c"
    and step: "\<And>d. P d \<Longrightarrow> capacity d = C \<Longrightarrow> C < int (length (evictionList d)) \<Longrightarrow>
                 P (snd (evictOldest d))"
  shows "\<exists>c'. evict_loop c = Some c' \<and> P c'"
  using assms(1,3)
proof (induction "length (evictionList c)" arbitrary: c)
  case 0
  with assms(2) show ?case by (subst evict_loop.simps) simp
next
  case (Suc n)
  show ?case
  proof (cases "int (length (evictionList c)) > capacity c")
    case False
    with Suc.prems show ?thesis by (subst evict_loop.simps) simp
  next
    case True
    let ?d = "snd (evictOldest c)"
    from Suc.hyps(2) have ne: "evictionList c \<noteq> []" by auto
    from evictOldest_length[OF ne] Suc.hyps(2) have n: "n = length (evictionList ?d)" by simp
    have "\<exists>c'. evict_loop ?d = Some c' \<and> P c'"
    proof (rule Suc.hyps(1)[OF n])
      show "capacity ?d = C" using Suc.prems(1) by (simp add: evictOldest_capacity)
      show "P ?d" using step[OF Suc.prems(2,1)] True Suc.prems(1) by simp
    qed
    with True show ?thesis by (subst evict_loop.simps) simp
  qed
qed

lemma evictOldest_keeps_front:
  assumes w: "cache_wf d" and l: "evictionList d = n # l" and "l \<noteq> []"
  shows "evictionList (snd (evictOldest d)) = n # butlast l"
    and "elems (snd (evictOldest d)) = elems d"
proof -
  from l assms(3) have b: "Back (evictionList d) = Some (last l)" by (simp add: Back_def)
  from wf_distinct[OF w] l have d: "distinct (n # l)" by simp
  with assms(3) have "last l \<noteq> n" by auto
  moreover from d have "distinct l" by simp
  then have "remove1 (last l) l = butlast l"
    using assms(3) by (metis append_butlast_last_id distinct_append remove1_append
        not_distinct_conv_prefix remove1.simps(2) append.right_neutral)
  moreover have o: "evictOldest d = evictElement d (last l)"
    by (simp only: evictOldest_def b option.case)
  ultimately show "evictionList (snd (evictOldest d)) = n # butlast l"
    by (simp add: o evictElement_fields l)
  show "elems (snd (evictOldest d)) = elems d"
    by (simp add: o evictElement_fields)
qed


lemma Set_stores:
  assumes w: "cache_wf c" and cap: "1 \<le> capacity c"
  shows "\<exists>b c' e. Set c k v ttl now = Some (b, c') \<and> items c' k = Some e
           \<and> elems c' e = \<lparr>Key = k, Value = v, Size = int (length v), CreatedAt = now,
                 ExpiresAt = (if ttl > 0 then Some (now + ttl) else None)\<rparr>"
proof (cases "items c k")
  case (Some e)
  show ?thesis by (auto simp: Set_existing_eq[OF Some] Some)
next
  case None
  let ?d = "pushed c k v ttl now"
  let ?n = "nextElem c"
  let ?P = "\<lambda>d. cache_wf d \<and> elems d = elems ?d \<and> (\<exists>l. evictionList d = ?n # l)"
  note wd = pushed_wf[OF w None, of v ttl now]
  have "\<exists>c'. evict_loop ?d = Some c' \<and> ?P c'"
  proof (rule evict_loop_guarded[where C = "capacity c"])
    show "capacity ?d = capacity c" by (rule pushed_capacity)
    show "0 \<le> capacity c" using cap by simp
    show "?P ?d" using wd by (simp add: pushed_def)
    fix d assume P: "?P d" and "capacity d = capacity c"
      and g: "capacity c < int (length (evictionList d))"
    from P obtain l where l: "evictionList d = ?n # l" by blast
    with g cap have ne: "l \<noteq> []" by auto
    from P have wd': "cache_wf d" by blast
    from evictOldest_keeps_front[OF wd' l ne] wf_evictOldest[OF wd'] P
    show "?P (snd (evictOldest d))" by simp
  qed
  then obtain c' l where r: "evict_loop ?d = Some c'" and w': "cache_wf c'"
    and h: "elems c' = elems ?d" and l: "evictionList c' = ?n # l" by blast
  from wf_item[OF w', of ?n] l have "items c' (Key (elems c' ?n)) = Some ?n" by simp
  moreover have "elems ?d ?n = \<lparr>Key = k, Value = v, Size = int (length v), CreatedAt = now,
                 ExpiresAt = (if ttl > 0 then Some (now + ttl) else None)\<rparr>"
    by (simp add: pushed_def)
  ultimately show ?thesis by (auto simp: Set_new_eq[OF None] r h)
qed


text \<open>
  X1. In a cache of capacity at least 1, in any state reached from a new cache, an entry
  set with a positive time to live \<open>ttl\<close> at time \<open>now\<close> is found by a \<^verbatim>\<open>Get\<close>, with the
  value that was set, at every time up to \<open>now + ttl\<close>; a \<^verbatim>\<open>Get\<close> after that time does
  not find it, counts one miss and removes the entry, with no other call in between.
\<close>

theorem entry_lives_for_its_ttl:
  assumes r: "run (NewLRUCache C) [] ops = Some (c, tr)" and C: "1 \<le> C" and ttl: "0 < ttl"
  shows "\<exists>b c'. Set c k v ttl now = Some (b, c')
           \<and> (t \<le> now + ttl \<longrightarrow> (\<exists>item. fst (Get c' k t) = Some item \<and> Value item = v))
           \<and> (now + ttl < t \<longrightarrow> fst (Get c' k t) = None
                 \<and> misses (snd (Get c' k t)) = misses c' + 1
                 \<and> items (snd (Get c' k t)) k = None)"
proof -
  from run_inv[OF _ _ r] New_inv[of C] have w: "cache_wf c" by blast
  have "0 \<le> capacity (NewLRUCache C)"
    and "int (length (evictionList (NewLRUCache C))) \<le> capacity (NewLRUCache C)"
    using C by (simp_all add: NewLRUCache_def)
  from run_bounded[OF this, of "[]" ops] r have "capacity c = C" by (simp add: NewLRUCache_def)
  with C have cap: "1 \<le> capacity c" by simp
  from Set_stores[OF w cap, of k v ttl now] ttl obtain b c' e
    where S: "Set c k v ttl now = Some (b, c')" and i: "items c' k = Some e"
      and h: "elems c' e = \<lparr>Key = k, Value = v, Size = int (length v), CreatedAt = now,
                 ExpiresAt = Some (now + ttl)\<rparr>" by auto
  have early: "\<exists>item. fst (Get c' k t) = Some item \<and> Value item = v" if "t \<le> now + ttl"
    using that by (simp add: Get_hit_eq[OF i] h)
  have late: "fst (Get c' k t) = None \<and> misses (snd (Get c' k t)) = misses c' + 1
                 \<and> items (snd (Get c' k t)) k = None" if "now + ttl < t"
  proof -
    from h have e: "ExpiresAt (elems c' e) = Some (now + ttl)" by simp
    show ?thesis
      by (simp add: Get_expired_eq[OF i e that] evictElement_fields evictElement_def Let_def h)
  qed
  from S early late show ?thesis by blast
qed


text \<open>The repository's test of the time to live: 100 units, read at 50 and at 150.\<close>

theorem entry_lives_for_its_ttl_witness:
  "run (NewLRUCache 3) [] [] = Some (NewLRUCache 3, []) \<and> (1::int) \<le> 3 \<and> (0::int) < 100
   \<and> (\<exists>b c'. Set (NewLRUCache 3) ''key1'' ''value1'' 100 0 = Some (b, c')
         \<and> (\<exists>item. fst (Get c' ''key1'' 50) = Some item \<and> Value item = ''value1'')
         \<and> fst (Get c' ''key1'' 150) = None)"
proof -
  have r: "run (NewLRUCache 3) [] [] = Some (NewLRUCache 3, [])" by simp
  from entry_lives_for_its_ttl[OF r, of 100 "''key1''" "''value1''" 0 50]
  obtain b c' where S: "Set (NewLRUCache 3) ''key1'' ''value1'' 100 0 = Some (b, c')"
    and early: "\<exists>item. fst (Get c' ''key1'' 50) = Some item \<and> Value item = ''value1''"
    by auto
  from entry_lives_for_its_ttl[OF r, of 100 "''key1''" "''value1''" 0 150]
  obtain b2 c2 where S2: "Set (NewLRUCache 3) ''key1'' ''value1'' 100 0 = Some (b2, c2)"
    and late: "fst (Get c2 ''key1'' 150) = None"
    by auto
  from S S2 have "c2 = c'" by simp
  with late have late': "fst (Get c' ''key1'' 150) = None" by simp
  from S early late' have "\<exists>b c'. Set (NewLRUCache 3) ''key1'' ''value1'' 100 0 = Some (b, c')
         \<and> (\<exists>item. fst (Get c' ''key1'' 50) = Some item \<and> Value item = ''value1'')
         \<and> fst (Get c' ''key1'' 150) = None" by blast
  with r show ?thesis by simp
qed


section \<open>Requests that are not cacheable\<close>

lemma resolveTarget_Method: "resolveTarget env r = Inr r' \<Longrightarrow> Method r' = Method r"
  by (auto simp: resolveTarget_def Let_def split: if_splits sum.splits)

lemma resolveTarget_ReqHeader: "resolveTarget env r = Inr r' \<Longrightarrow> ReqHeader r' = ReqHeader r"
  by (auto simp: resolveTarget_def Let_def split: if_splits sum.splits)


text \<open>
  X2. A request that is not cacheable (a method other than \<^verbatim>\<open>GET\<close> and \<^verbatim>\<open>HEAD\<close>, such
  as \<^verbatim>\<open>POST\<close>; an \<^verbatim>\<open>Authorization\<close> header; \<^verbatim>\<open>no-store\<close> in its \<^verbatim>\<open>Cache-Control\<close>) is
  neither read from nor written to the cache, whatever the upstream answers: the
  handler's result is the same with any other cache behind the interface, and the state
  of the cache is left as it was.
\<close>

theorem uncacheable_request_bypasses_cache:
  assumes "\<not> isCacheable r"
  shows "handleRequest env cfg ch c w r = handleRequest env cfg ch' c w r
       \<and> snd (handleRequest env cfg ch c w r) = c"
proof (cases "resolveTarget env r")
  case (Inl e)
  then show ?thesis by (simp add: handleRequest_def)
next
  case (Inr r')
  have "isCacheable r' = isCacheable r"
    unfolding isCacheable_def resolveTarget_Method[OF Inr] resolveTarget_ReqHeader[OF Inr] ..
  with assms have n: "\<not> isCacheable r'" by simp
  have g: "snd (forwardRequest env cfg x c w r') = c" for x :: "'a Cache"
    using n by (simp add: forwardRequest_def Let_def split: sum.splits)
  have f: "forwardRequest env cfg ch c w r' = forwardRequest env cfg ch' c w r'"
    using n by (simp add: forwardRequest_def Let_def split: sum.splits)
  from n have l: "cacheLookup env ch c r' = (None, c)" "cacheLookup env ch' c r' = (None, c)"
    by (simp_all add: cacheLookup_def)
  show ?thesis by (simp add: handleRequest_def Inr l f g)
qed


text \<open>A \<^verbatim>\<open>POST\<close> to a permitted host.\<close>

theorem uncacheable_request_bypasses_cache_witness:
  "\<not> isCacheable (example_request ''POST'' ''example.com'')
   \<and> snd (handleRequest example_env example_config empty_cache () []
        (example_request ''POST'' ''example.com'')) = ()"
  using uncacheable_request_bypasses_cache[of "example_request ''POST'' ''example.com''"
      example_env example_config empty_cache "()" "[]" empty_cache]
  by (simp add: isCacheable_def cacheables_def example_request_def)
end
